theory Spec2Isabelle
  imports Main "HOL-Library.Word"
begin

unbundle bit_operations_syntax

section \<open>Python values and text primitives used by the master and the workers\<close>

text \<open>
  Strings are lists of \<^typ>\<open>char\<close>; a character stands for the code point of the same
  number, so the model covers Python strings whose code points are below 256 (CPython
  stores exactly these one byte per character). Python integers are \<^typ>\<open>int\<close>.
  Conversions between integers and text are taken without the interpreter's configurable
  limit on the number of digits.
\<close>

datatype error = FileNotFoundError | OSError | ValueError | ZeroDivisionError

datatype pyval = IntV int | StrV string

definition TAB :: char where "TAB = CHR 0x09"
definition LF :: char where "LF = CHR 0x0A"
definition CR :: char where "CR = CHR 0x0D"

text \<open>\<open>str.isspace\<close> on one character (code points below 256).\<close>

definition py_isspace :: "char \<Rightarrow> bool" where
  "py_isspace c = ((of_char c :: nat) \<in> {9, 10, 11, 12, 13, 28, 29, 30, 31, 32, 133, 160})"

text \<open>\<open>s.strip()\<close> and \<open>s.strip(chars)\<close>.\<close>

definition strip_with :: "(char \<Rightarrow> bool) \<Rightarrow> string \<Rightarrow> string" where
  "strip_with p s = rev (dropWhile p (rev (dropWhile p s)))"

definition py_strip :: "string \<Rightarrow> string" where
  "py_strip s = strip_with py_isspace s"

definition py_strip_chars :: "string \<Rightarrow> string \<Rightarrow> string" where
  "py_strip_chars chars s = strip_with (\<lambda>c. c \<in> set chars) s"

text \<open>\<open>s.split(sep)\<close> for a one-character separator: \<open>n\<close> separators give \<open>n + 1\<close> fields.\<close>

fun split_on :: "char \<Rightarrow> string \<Rightarrow> string \<Rightarrow> string list" where
  "split_on sep cur [] = [cur]"
| "split_on sep cur (c # cs) =
     (if c = sep then cur # split_on sep [] cs else split_on sep (cur @ [c]) cs)"

definition py_split :: "char \<Rightarrow> string \<Rightarrow> string list" where
  "py_split sep s = split_on sep [] s"

text \<open>\<open>s.split()\<close>: fields between runs of whitespace, no empty field.\<close>

fun split_ws :: "string \<Rightarrow> string \<Rightarrow> string list" where
  "split_ws cur [] = (if cur = [] then [] else [cur])"
| "split_ws cur (c # cs) =
     (if py_isspace c then (if cur = [] then split_ws [] cs else cur # split_ws [] cs)
      else split_ws (cur @ [c]) cs)"

definition py_split_ws :: "string \<Rightarrow> string list" where
  "py_split_ws s = split_ws [] s"

text \<open>\<open>s.lower()\<close> (code points below 256).\<close>

definition lower_char :: "char \<Rightarrow> char" where
  "lower_char c = (let n = (of_char c :: nat) in
     if (65 \<le> n \<and> n \<le> 90) \<or> (192 \<le> n \<and> n \<le> 222 \<and> n \<noteq> 215) then char_of (n + 32) else c)"

definition py_lower :: "string \<Rightarrow> string" where
  "py_lower s = map lower_char s"

text \<open>\<open>str(n)\<close> for an integer, as the f-strings render task numbers, reducer ids and counts.\<close>

definition digit_char :: "nat \<Rightarrow> char" where
  "digit_char d = char_of (48 + d)"

fun nat_str :: "nat \<Rightarrow> string" where
  "nat_str n = (if n < 10 then [digit_char n] else nat_str (n div 10) @ [digit_char (n mod 10)])"

declare nat_str.simps [simp del]

definition py_str_int :: "int \<Rightarrow> string" where
  "py_str_int i = (if i < 0 then CHR ''-'' # nat_str (nat (- i)) else nat_str (nat i))"

fun py_str :: "pyval \<Rightarrow> string" where
  "py_str (IntV i) = py_str_int i"
| "py_str (StrV s) = s"

text \<open>
  \<open>int(s)\<close> on a string, base 10: surrounding whitespace is skipped, then an optional sign,
  then decimal digits in which single underscores may stand between two digits. Anything
  else raises \<open>ValueError\<close>. The whitespace skipped by \<open>int\<close> is narrower than that of
  \<open>strip\<close>: the separators 28 to 31 are not accepted.
\<close>

definition int_space :: "char \<Rightarrow> bool" where
  "int_space c = ((of_char c :: nat) \<in> {9, 10, 11, 12, 13, 32, 133, 160})"

definition is_digit :: "char \<Rightarrow> bool" where
  "is_digit c = (48 \<le> (of_char c :: nat) \<and> (of_char c :: nat) \<le> 57)"

definition digit_val :: "char \<Rightarrow> int" where
  "digit_val c = int (of_char c) - 48"

fun parse_digits :: "bool \<Rightarrow> int \<Rightarrow> string \<Rightarrow> int option" where
  "parse_digits prev acc [] = (if prev then Some acc else None)"
| "parse_digits prev acc (c # cs) =
     (if is_digit c then parse_digits True (acc * 10 + digit_val c) cs
      else if c = CHR ''_'' \<and> prev then parse_digits False acc cs
      else None)"

definition py_int :: "string \<Rightarrow> error + int" where
  "py_int s = (case strip_with int_space s of
       [] \<Rightarrow> Inl ValueError
     | c # r \<Rightarrow>
        (let neg = (c = CHR ''-'');
             body = (if c = CHR ''-'' \<or> c = CHR ''+'' then r else c # r)
         in case parse_digits False 0 body of
              None \<Rightarrow> Inl ValueError
            | Some n \<Rightarrow> Inr (if neg then - n else n)))"

section \<open>The interpreter's string hash\<close>

text \<open>
  \<open>hash(key)\<close> on a string is CPython's keyed SipHash-1-3 over the string's bytes. The key
  is the process's hash secret: sixteen bytes drawn at interpreter start (all zero only
  under \<open>PYTHONHASHSEED=0\<close>). The secret is therefore a parameter of the hash.
\<close>

type_synonym u64 = "64 word"

type_synonym hash_secret = "u64 \<times> u64"

definition ROTATE :: "u64 \<Rightarrow> nat \<Rightarrow> u64" where
  "ROTATE x b = push_bit b x OR drop_bit (64 - b) x"

text \<open>
  \<open>HALF_ROUND(a,b,c,d,s,t)\<close>: \<open>a += b; c += d; b = ROTATE(b,s) ^ a; d = ROTATE(d,t) ^ c;
  a = ROTATE(a,32)\<close>, on the four state words.
\<close>

fun HALF_ROUND :: "u64 \<times> u64 \<times> u64 \<times> u64 \<Rightarrow> nat \<Rightarrow> nat \<Rightarrow> u64 \<times> u64 \<times> u64 \<times> u64" where
  "HALF_ROUND (a, b, c, d) s t =
     (ROTATE (a + b) 32, ROTATE b s XOR (a + b), c + d, ROTATE d t XOR (c + d))"

text \<open>
  \<open>SINGLE_ROUND(v0,v1,v2,v3)\<close> is \<open>HALF_ROUND(v0,v1,v2,v3,13,16)\<close> followed by
  \<open>HALF_ROUND(v2,v1,v0,v3,17,21)\<close>: the second half round works with \<open>v0\<close> and \<open>v2\<close>
  exchanged.
\<close>

fun swap02 :: "u64 \<times> u64 \<times> u64 \<times> u64 \<Rightarrow> u64 \<times> u64 \<times> u64 \<times> u64" where
  "swap02 (v0, v1, v2, v3) = (v2, v1, v0, v3)"

definition SINGLE_ROUND :: "u64 \<times> u64 \<times> u64 \<times> u64 \<Rightarrow> u64 \<times> u64 \<times> u64 \<times> u64" where
  "SINGLE_ROUND v = swap02 (HALF_ROUND (swap02 (HALF_ROUND v 13 16)) 17 21)"

text \<open>Up to eight bytes read as a little-endian 64-bit word.\<close>

fun le_bytes :: "string \<Rightarrow> u64" where
  "le_bytes [] = 0"
| "le_bytes (c # cs) = of_nat (of_char c) OR push_bit 8 (le_bytes cs)"

text \<open>One message word \<open>m\<close>: \<open>v3 ^= m; SINGLE_ROUND; v0 ^= m\<close>.\<close>

fun xor_v3 :: "u64 \<times> u64 \<times> u64 \<times> u64 \<Rightarrow> u64 \<Rightarrow> u64 \<times> u64 \<times> u64 \<times> u64" where
  "xor_v3 (v0, v1, v2, v3) m = (v0, v1, v2, v3 XOR m)"

fun xor_v0 :: "u64 \<times> u64 \<times> u64 \<times> u64 \<Rightarrow> u64 \<Rightarrow> u64 \<times> u64 \<times> u64 \<times> u64" where
  "xor_v0 (v0, v1, v2, v3) m = (v0 XOR m, v1, v2, v3)"

fun xor_v2 :: "u64 \<times> u64 \<times> u64 \<times> u64 \<Rightarrow> u64 \<Rightarrow> u64 \<times> u64 \<times> u64 \<times> u64" where
  "xor_v2 (v0, v1, v2, v3) m = (v0, v1, v2 XOR m, v3)"

definition absorb :: "u64 \<times> u64 \<times> u64 \<times> u64 \<Rightarrow> u64 \<Rightarrow> u64 \<times> u64 \<times> u64 \<times> u64" where
  "absorb v m = xor_v0 (SINGLE_ROUND (xor_v3 v m)) m"

text \<open>The loop over the full eight-byte blocks; it returns the state and the bytes left.\<close>

function sip_blocks :: "u64 \<times> u64 \<times> u64 \<times> u64 \<Rightarrow> string \<Rightarrow> (u64 \<times> u64 \<times> u64 \<times> u64) \<times> string" where
  "sip_blocks v src =
     (if 8 \<le> length src then sip_blocks (absorb v (le_bytes (take 8 src))) (drop 8 src)
      else (v, src))"
  by pat_completeness auto
termination
  by (relation "measure (\<lambda>(v, src). length src)") auto

declare sip_blocks.simps [simp del]

text \<open>
  The last word holds the bytes left and, in its top byte, the length; then
  \<open>v2 ^= 0xff\<close>, three rounds, and the four state words folded into one.
\<close>

fun fold_state :: "u64 \<times> u64 \<times> u64 \<times> u64 \<Rightarrow> u64" where
  "fold_state (v0, v1, v2, v3) = (v0 XOR v1) XOR (v2 XOR v3)"

definition finish :: "u64 \<times> u64 \<times> u64 \<times> u64 \<Rightarrow> u64 \<Rightarrow> u64" where
  "finish v b = fold_state (SINGLE_ROUND (SINGLE_ROUND (SINGLE_ROUND (xor_v2 (absorb v b) 0xff))))"

fun sip_tail :: "(u64 \<times> u64 \<times> u64 \<times> u64) \<times> string \<Rightarrow> nat \<Rightarrow> u64" where
  "sip_tail (v, rest) src_sz = finish v (push_bit 56 (of_nat src_sz) OR le_bytes rest)"

definition siphash13 :: "u64 \<Rightarrow> u64 \<Rightarrow> string \<Rightarrow> u64" where
  "siphash13 k0 k1 src =
     sip_tail
       (sip_blocks (k0 XOR 0x736f6d6570736575, k1 XOR 0x646f72616e646f6d,
                    k0 XOR 0x6c7967656e657261, k1 XOR 0x7465646279746573) src)
       (length src)"

text \<open>The signed result; the empty string hashes to 0 and the value \<open>-1\<close> is replaced by \<open>-2\<close>.\<close>

definition py_hash :: "hash_secret \<Rightarrow> string \<Rightarrow> int" where
  "py_hash secret s =
     (if s = [] then 0
      else (let x = sint (siphash13 (fst secret) (snd secret) s) in if x = - 1 then - 2 else x))"

text \<open>The reducer of a key in the map step: \<open>hash(key) % num_reducers\<close>.\<close>

definition reducer_of :: "hash_secret \<Rightarrow> string \<Rightarrow> int \<Rightarrow> error + int" where
  "reducer_of secret key num_reducers =
     (if num_reducers = 0 then Inl ZeroDivisionError
      else Inr (py_hash secret key mod num_reducers))"

section \<open>Dictionaries that keep insertion order\<close>

text \<open>
  \<open>defaultdict(list)\<close> as an association list in order of first insertion:
  \<open>d[k].append(v)\<close> and \<open>d[k].extend(vs)\<close>.
\<close>

fun append_item :: "'k \<Rightarrow> 'v \<Rightarrow> ('k \<times> 'v list) list \<Rightarrow> ('k \<times> 'v list) list" where
  "append_item k v [] = [(k, [v])]"
| "append_item k v ((k', vs) # rest) =
     (if k = k' then (k', vs @ [v]) # rest else (k', vs) # append_item k v rest)"

fun extend_item :: "'k \<Rightarrow> 'v list \<Rightarrow> ('k \<times> 'v list) list \<Rightarrow> ('k \<times> 'v list) list" where
  "extend_item k ws [] = [(k, ws)]"
| "extend_item k ws ((k', vs) # rest) =
     (if k = k' then (k', vs @ ws) # rest else (k', vs) # extend_item k ws rest)"

text \<open>\<open>d[k]\<close> on a \<open>defaultdict(list)\<close>: a missing key reads as the empty list.\<close>

fun lookup_list :: "('k \<times> 'v list) list \<Rightarrow> 'k \<Rightarrow> 'v list" where
  "lookup_list [] k = []"
| "lookup_list ((k', vs) # rest) k = (if k = k' then vs else lookup_list rest k)"

section \<open>The shared file system\<close>

text \<open>
  The file system is the only resource shared by master and workers. A file is absent or
  holds text; opening an absent file for reading raises \<open>FileNotFoundError\<close>, opening a
  path for writing raises \<open>OSError\<close> where the path cannot be written (its directory is
  missing, say), and otherwise replaces the file's text.
\<close>

record filesystem =
  files :: "string \<Rightarrow> string option"
  writable :: "string \<Rightarrow> bool"

definition read_file :: "filesystem \<Rightarrow> string \<Rightarrow> error + string" where
  "read_file fs name = (case files fs name of None \<Rightarrow> Inl FileNotFoundError | Some text \<Rightarrow> Inr text)"

definition write_file :: "filesystem \<Rightarrow> string \<Rightarrow> string \<Rightarrow> error + filesystem" where
  "write_file fs name text =
     (if writable fs name then Inr (fs\<lparr>files := (files fs)(name \<mapsto> text)\<rparr>) else Inl OSError)"

text \<open>
  \<open>for line in f\<close> on a file opened in text mode: lines end at LF, CR or CR LF, and the
  terminator is handed over as LF. The flag records that the previous character was CR.
\<close>

fun file_lines :: "bool \<Rightarrow> string \<Rightarrow> string \<Rightarrow> string list" where
  "file_lines after_cr cur [] = (if cur = [] then [] else [cur])"
| "file_lines after_cr cur (c # cs) =
     (if c = LF then (if after_cr then file_lines False cur cs
                      else (cur @ [LF]) # file_lines False [] cs)
      else if c = CR then (cur @ [LF]) # file_lines True [] cs
      else file_lines False (cur @ [c]) cs)"

definition lines_of :: "string \<Rightarrow> string list" where
  "lines_of text = file_lines False [] text"

text \<open>
  One line as the reduce step and the merger read it:
  \<open>if line.strip(): key, value = line.strip().split('\t')\<close>, then \<open>int(value)\<close>.
  A blank line is skipped (\<open>None\<close>); a line without exactly two fields, or with a value
  that \<open>int\<close> rejects, raises \<open>ValueError\<close>.
\<close>

definition parse_line :: "string \<Rightarrow> error + (string \<times> int) option" where
  "parse_line line =
     (let s = py_strip line in
      if s = [] then Inr None
      else (case py_split TAB s of
              [key, value] \<Rightarrow> (case py_int value of Inl e \<Rightarrow> Inl e | Inr n \<Rightarrow> Inr (Some (key, n)))
            | _ \<Rightarrow> Inl ValueError))"

text \<open>The records written by map, reduce and merge: \<open>f"{key}\t{value}\n"\<close> per pair.\<close>

definition write_records :: "(string \<times> pyval) list \<Rightarrow> string" where
  "write_records items = concat (map (\<lambda>(key, value). key @ [TAB] @ py_str value @ [LF]) items)"

section \<open>The worker\<close>

record worker =
  worker_id :: int
  address :: string
  map_func :: "string \<Rightarrow> (string \<times> pyval) list"
  reduce_func :: "string \<Rightarrow> int list \<Rightarrow> string \<times> pyval"
  hash_secret :: hash_secret

text \<open>The word-count functions that \<open>create_worker\<close> installs.\<close>

definition wc_map_func :: "string \<Rightarrow> (string \<times> pyval) list" where
  "wc_map_func text =
     map (\<lambda>word. (py_strip_chars ''.,!?;:'' word, IntV 1))
       (filter (\<lambda>word. py_strip_chars ''.,!?;:'' word \<noteq> []) (py_split_ws (py_lower text)))"

definition wc_reduce_func :: "string \<Rightarrow> int list \<Rightarrow> string \<times> pyval" where
  "wc_reduce_func word counts = (word, IntV (sum_list counts))"

text \<open>
  What a task handler answers (HTTP 200 with status \<open>completed\<close>, or 500 with status
  \<open>failed\<close>), and what it posts to the master before answering: the task id with the
  partition files per reducer, or the task id with the output file. The post itself is
  taken to arrive.
\<close>

datatype response = Completed | Failed error

type_synonym map_report = "string \<times> (int \<times> string list) list"

type_synonym reduce_report = "string \<times> string"

definition partition_path :: "int \<Rightarrow> int \<Rightarrow> string" where
  "partition_path task_num reducer_id =
     ''data/intermediate/map-'' @ py_str_int task_num @ ''-reduce-'' @ py_str_int reducer_id @ ''.txt''"

definition output_path :: "int \<Rightarrow> string" where
  "output_path reducer_id = ''data/output/reduce-'' @ py_str_int reducer_id @ ''.txt''"

text \<open>The partitioning loop of the map step.\<close>

fun partition_items :: "hash_secret \<Rightarrow> int \<Rightarrow> (int \<times> (string \<times> pyval) list) list \<Rightarrow>
    (string \<times> pyval) list \<Rightarrow> error + (int \<times> (string \<times> pyval) list) list" where
  "partition_items secret num_reducers partitions [] = Inr partitions"
| "partition_items secret num_reducers partitions ((key, value) # rest) =
     (case reducer_of secret key num_reducers of
        Inl e \<Rightarrow> Inl e
      | Inr reducer_id \<Rightarrow>
          partition_items secret num_reducers (append_item reducer_id (key, value) partitions) rest)"

text \<open>
  The loop writing one file per non-empty partition. A failing write ends the loop; the
  files written before it stay on disk.
\<close>

fun write_partitions :: "int \<Rightarrow> (int \<times> (string \<times> pyval) list) list \<Rightarrow> filesystem \<Rightarrow>
    (int \<times> string list) list \<Rightarrow> filesystem \<times> (error + (int \<times> string list) list)" where
  "write_partitions task_num [] fs intermediate_files = (fs, Inr intermediate_files)"
| "write_partitions task_num ((reducer_id, items) # rest) fs intermediate_files =
     (let filename = partition_path task_num reducer_id in
      case write_file fs filename (write_records items) of
        Inl e \<Rightarrow> (fs, Inl e)
      | Inr fs' \<Rightarrow>
          write_partitions task_num rest fs' (append_item reducer_id filename intermediate_files))"

definition execute_map :: "worker \<Rightarrow> string \<Rightarrow> string \<Rightarrow> int \<Rightarrow> int \<Rightarrow> filesystem \<Rightarrow>
    filesystem \<times> response \<times> map_report option" where
  "execute_map w task_id input_file num_reducers task_num fs =
     (case read_file fs input_file of
        Inl e \<Rightarrow> (fs, Failed e, None)
      | Inr text \<Rightarrow>
         (let mapped_data = map_func w text in
          case partition_items (hash_secret w) num_reducers [] mapped_data of
            Inl e \<Rightarrow> (fs, Failed e, None)
          | Inr partitions \<Rightarrow>
             (case write_partitions task_num partitions fs [] of
                (fs', Inl e) \<Rightarrow> (fs', Failed e, None)
              | (fs', Inr intermediate_files) \<Rightarrow>
                  (fs', Completed, Some (task_id, intermediate_files)))))"

text \<open>The grouping loops of the reduce step, over the lines of one file and over the files.\<close>

fun group_lines :: "(string \<times> int list) list \<Rightarrow> string list \<Rightarrow> error + (string \<times> int list) list" where
  "group_lines grouped_data [] = Inr grouped_data"
| "group_lines grouped_data (line # rest) =
     (case parse_line line of
        Inl e \<Rightarrow> Inl e
      | Inr None \<Rightarrow> group_lines grouped_data rest
      | Inr (Some (key, n)) \<Rightarrow> group_lines (append_item key n grouped_data) rest)"

fun group_files :: "filesystem \<Rightarrow> (string \<times> int list) list \<Rightarrow> string list \<Rightarrow>
    error + (string \<times> int list) list" where
  "group_files fs grouped_data [] = Inr grouped_data"
| "group_files fs grouped_data (filename # rest) =
     (case read_file fs filename of
        Inl e \<Rightarrow> Inl e
      | Inr text \<Rightarrow>
         (case group_lines grouped_data (lines_of text) of
            Inl e \<Rightarrow> Inl e
          | Inr grouped_data' \<Rightarrow> group_files fs grouped_data' rest))"

definition execute_reduce :: "worker \<Rightarrow> string \<Rightarrow> int \<Rightarrow> string list \<Rightarrow> filesystem \<Rightarrow>
    filesystem \<times> response \<times> reduce_report option" where
  "execute_reduce w task_id reducer_id input_files fs =
     (case group_files fs [] input_files of
        Inl e \<Rightarrow> (fs, Failed e, None)
      | Inr grouped_data \<Rightarrow>
         (let results = map (\<lambda>(key, values). reduce_func w key values) grouped_data;
              output_file = output_path reducer_id
          in case write_file fs output_file (write_records results) of
               Inl e \<Rightarrow> (fs, Failed e, None)
             | Inr fs' \<Rightarrow> (fs', Completed, Some (task_id, output_file))))"

section \<open>The master\<close>

record worker_info =
  info_id :: int
  info_address :: string
  info_status :: string

record master =
  workers :: "worker_info list"
  map_tasks :: "string list"
  reduce_tasks :: "string list"
  task_status :: "(string \<times> string) list"
  intermediate_files :: "(int \<times> string list) list"
  num_reduce_tasks :: int
  completed_maps :: int
  completed_reduces :: int

definition init_master :: "int \<Rightarrow> master" where
  "init_master n = \<lparr>workers = [], map_tasks = [], reduce_tasks = [], task_status = [],
     intermediate_files = [], num_reduce_tasks = n, completed_maps = 0, completed_reduces = 0\<rparr>"

definition register_worker :: "int \<Rightarrow> string \<Rightarrow> master \<Rightarrow> master" where
  "register_worker wid addr m =
     m\<lparr>workers := workers m @ [\<lparr>info_id = wid, info_address = addr, info_status = ''idle''\<rparr>]\<rparr>"

text \<open>
  The handler of \<open>/map_complete\<close>. The flag returned with the new state tells whether this
  report started the reduce phase. Handlers are taken one at a time.
\<close>

definition store_intermediate :: "(int \<times> string list) list \<Rightarrow> (int \<times> string list) list \<Rightarrow>
    (int \<times> string list) list" where
  "store_intermediate manifest intermediate =
     foldl (\<lambda>acc (reducer_id, fnames). extend_item reducer_id fnames acc) manifest intermediate"

definition map_complete :: "string \<Rightarrow> (int \<times> string list) list \<Rightarrow> master \<Rightarrow> master \<times> bool" where
  "map_complete task_id intermediate m =
     (let m1 = m\<lparr>intermediate_files := store_intermediate (intermediate_files m) intermediate\<rparr>;
          m2 = m1\<lparr>completed_maps := completed_maps m1 + 1\<rparr>
      in (m2, completed_maps m2 = int (length (map_tasks m2))))"

text \<open>\<open>range(n)\<close>.\<close>

definition py_range :: "int \<Rightarrow> int list" where
  "py_range n = map int [0 ..< nat n]"

text \<open>
  \<open>merge_results\<close>: the reading loop (only \<open>FileNotFoundError\<close> is caught, per file), the
  stable sort by descending count, and the final file.
\<close>

fun parse_lines :: "(string \<times> int) list \<Rightarrow> string list \<Rightarrow> error + (string \<times> int) list" where
  "parse_lines final_results [] = Inr final_results"
| "parse_lines final_results (line # rest) =
     (case parse_line line of
        Inl e \<Rightarrow> Inl e
      | Inr None \<Rightarrow> parse_lines final_results rest
      | Inr (Some (word, count)) \<Rightarrow> parse_lines (final_results @ [(word, count)]) rest)"

fun read_outputs :: "filesystem \<Rightarrow> (string \<times> int) list \<Rightarrow> int list \<Rightarrow> error + (string \<times> int) list" where
  "read_outputs fs final_results [] = Inr final_results"
| "read_outputs fs final_results (i # rest) =
     (case read_file fs (output_path i) of
        Inl FileNotFoundError \<Rightarrow> read_outputs fs final_results rest
      | Inl e \<Rightarrow> Inl e
      | Inr text \<Rightarrow>
         (case parse_lines final_results (lines_of text) of
            Inl e \<Rightarrow> Inl e
          | Inr final_results' \<Rightarrow> read_outputs fs final_results' rest))"

definition sort_by_count :: "(string \<times> int) list \<Rightarrow> (string \<times> int) list" where
  "sort_by_count final_results = sort_key (\<lambda>x. - snd x) final_results"

definition final_path :: string where
  "final_path = ''data/output/final_results.txt''"

definition merge_results :: "master \<Rightarrow> filesystem \<Rightarrow> error + filesystem \<times> (string \<times> int) list" where
  "merge_results m fs =
     (case read_outputs fs [] (py_range (num_reduce_tasks m)) of
        Inl e \<Rightarrow> Inl e
      | Inr final_results \<Rightarrow>
         (let sorted_results = sort_by_count final_results in
          case write_file fs final_path (write_records (map (\<lambda>(word, count). (word, IntV count)) sorted_results)) of
            Inl e \<Rightarrow> Inl e
          | Inr fs' \<Rightarrow> Inr (fs', sorted_results)))"

text \<open>
  The handler of \<open>/reduce_complete\<close>: the counter is incremented, and the report that
  brings it to the number of reducers runs the merge inside the handler. The result holds
  the file system after the handler and what the merge gave, if it ran.
\<close>

definition reduce_complete :: "string \<Rightarrow> string \<Rightarrow> master \<Rightarrow> filesystem \<Rightarrow>
    master \<times> filesystem \<times> (error + (string \<times> int) list) option" where
  "reduce_complete task_id output_file m fs =
     (let m1 = m\<lparr>completed_reduces := completed_reduces m + 1\<rparr> in
      if completed_reduces m1 = num_reduce_tasks m1 then
        (case merge_results m1 fs of
           Inl e \<Rightarrow> (m1, fs, Some (Inl e))
         | Inr (fs', final_results) \<Rightarrow> (m1, fs', Some (Inr final_results)))
      else (m1, fs, None))"

section \<open>A job, one handler at a time\<close>

text \<open>
  The master starts a thread per task and serves its handlers on concurrent threads,
  with no lock around its counters and its manifest. The runs below are the serial order
  only: they take the tasks in dispatch order and let each one finish, its report handled
  by the master as a whole, before the next starts. What is proved of these runs holds
  when the handlers do not interleave; nothing is claimed of an interleaved run. Every
  task is dispatched once and never again. \<open>ws\<close> lists the worker processes in the
  order in which they registered.
\<close>

fun map_reports :: "map_report list \<Rightarrow> master \<Rightarrow> master \<times> nat" where
  "map_reports [] m = (m, 0)"
| "map_reports ((task_id, intermediate) # rest) m =
     (case map_complete task_id intermediate m of
        (m1, started) \<Rightarrow>
          (case map_reports rest m1 of (m2, n) \<Rightarrow> (m2, (if started then 1 else 0) + n)))"

definition register_all :: "worker list \<Rightarrow> master \<Rightarrow> master" where
  "register_all ws m = foldl (\<lambda>m w. register_worker (worker_id w) (address w) m) m ws"

text \<open>\<open>self.workers[i % len(self.workers)]\<close>.\<close>

definition worker_for :: "worker list \<Rightarrow> int \<Rightarrow> error + worker" where
  "worker_for ws i =
     (if ws = [] then Inl ZeroDivisionError else Inr (ws ! nat (i mod int (length ws))))"

definition enumerate_files :: "string list \<Rightarrow> (int \<times> string) list" where
  "enumerate_files input_files = zip (py_range (int (length input_files))) input_files"

fun map_phase :: "worker list \<Rightarrow> (int \<times> string) list \<Rightarrow> master \<Rightarrow> filesystem \<Rightarrow>
    error + master \<times> filesystem \<times> bool" where
  "map_phase ws [] m fs = Inr (m, fs, False)"
| "map_phase ws ((i, input_file) # rest) m fs =
     (case worker_for ws i of
        Inl e \<Rightarrow> Inl e
      | Inr w \<Rightarrow>
         (case execute_map w (''map-'' @ py_str_int i) input_file (num_reduce_tasks m) i fs of
            (fs1, resp, None) \<Rightarrow> map_phase ws rest m fs1
          | (fs1, resp, Some (task_id, intermediate)) \<Rightarrow>
             (case map_complete task_id intermediate m of
                (m1, started) \<Rightarrow>
                  (case map_phase ws rest m1 fs1 of
                     Inl e \<Rightarrow> Inl e
                   | Inr (m2, fs2, started2) \<Rightarrow> Inr (m2, fs2, started \<or> started2)))))"

fun reduce_phase :: "worker list \<Rightarrow> int list \<Rightarrow> master \<Rightarrow> filesystem \<Rightarrow>
    error + master \<times> filesystem \<times> (error + (string \<times> int) list) option" where
  "reduce_phase ws [] m fs = Inr (m, fs, None)"
| "reduce_phase ws (reducer_id # rest) m fs =
     (case worker_for ws reducer_id of
        Inl e \<Rightarrow> Inl e
      | Inr w \<Rightarrow>
         (let m0 = m\<lparr>intermediate_files := extend_item reducer_id [] (intermediate_files m)\<rparr>;
              input_files = lookup_list (intermediate_files m0) reducer_id
          in case execute_reduce w (''reduce-'' @ py_str_int reducer_id) reducer_id input_files fs of
               (fs1, resp, None) \<Rightarrow> reduce_phase ws rest m0 fs1
             | (fs1, resp, Some (task_id, output_file)) \<Rightarrow>
                (case reduce_complete task_id output_file m0 fs1 of
                   (m1, fs2, merged) \<Rightarrow>
                     (case reduce_phase ws rest m1 fs2 of
                        Inl e \<Rightarrow> Inl e
                      | Inr (m2, fs3, merged2) \<Rightarrow>
                          Inr (m2, fs3, (case merged of None \<Rightarrow> merged2 | Some r \<Rightarrow> Some r))))))"

text \<open>
  How a job ends: the merge ran and gave the final results, the merge ran and raised, or
  the job never reached the merge (some task did not complete).
\<close>

datatype outcome = Done "(string \<times> int) list" | MergeFailed error | Stalled

definition run_job :: "worker list \<Rightarrow> int \<Rightarrow> string list \<Rightarrow> filesystem \<Rightarrow>
    error + master \<times> filesystem \<times> outcome" where
  "run_job ws R input_files fs =
     (let m0 = (register_all ws (init_master R))\<lparr>map_tasks := input_files\<rparr> in
      case map_phase ws (enumerate_files input_files) m0 fs of
        Inl e \<Rightarrow> Inl e
      | Inr (m1, fs1, started) \<Rightarrow>
          if \<not> started then Inr (m1, fs1, Stalled)
          else (case reduce_phase ws (py_range (num_reduce_tasks m1)) m1 fs1 of
                  Inl e \<Rightarrow> Inr (m1, fs1, Stalled)
                | Inr (m2, fs2, None) \<Rightarrow> Inr (m2, fs2, Stalled)
                | Inr (m2, fs2, Some (Inl e)) \<Rightarrow> Inr (m2, fs2, MergeFailed e)
                | Inr (m2, fs2, Some (Inr final_results)) \<Rightarrow> Inr (m2, fs2, Done final_results)))"

section \<open>Notions used to state the properties\<close>

text \<open>
  The entries of reducer \<open>i\<close>'s output file as the merger reads them; a missing file has
  none.
\<close>

definition output_entries :: "filesystem \<Rightarrow> int \<Rightarrow> error + (string \<times> int) list" where
  "output_entries fs i =
     (case files fs (output_path i) of
        None \<Rightarrow> Inr []
      | Some text \<Rightarrow> parse_lines [] (lines_of text))"

definition entries_or_none :: "filesystem \<Rightarrow> int \<Rightarrow> (string \<times> int) list" where
  "entries_or_none fs i = (case output_entries fs i of Inl e \<Rightarrow> [] | Inr ps \<Rightarrow> ps)"

definition final_text :: "(string \<times> int) list \<Rightarrow> string" where
  "final_text rs = write_records (map (\<lambda>(word, count). (word, IntV count)) rs)"

text \<open>
  A key that survives the trip through a record file: not empty, not starting with a
  whitespace character, and free of TAB, LF and CR.
\<close>

definition clean_key :: "string \<Rightarrow> bool" where
  "clean_key k = (k \<noteq> [] \<and> \<not> py_isspace (hd k) \<and> TAB \<notin> set k \<and> LF \<notin> set k \<and> CR \<notin> set k)"

text \<open>
  An integer numeral as \<open>int\<close> documents it: a digit, then digits each optionally preceded
  by one underscore; before that an optional sign, and whitespace around the whole.
\<close>

fun digit_part :: "string \<Rightarrow> bool" where
  "digit_part [] = False"
| "digit_part [c] = is_digit c"
| "digit_part (c # d # r) = (is_digit c \<and> (if d = CHR ''_'' then digit_part r else digit_part (d # r)))"

definition int_numeral :: "string \<Rightarrow> bool" where
  "int_numeral s =
     (case strip_with int_space s of
        [] \<Rightarrow> False
      | c # r \<Rightarrow> digit_part (if c = CHR ''-'' \<or> c = CHR ''+'' then r else c # r))"

text \<open>
  A reduce function that returns the key it was given, with an integer: the word-count
  function does.
\<close>

definition returns_key :: "(string \<Rightarrow> int list \<Rightarrow> string \<times> pyval) \<Rightarrow> bool" where
  "returns_key rf = (\<forall>k vs. \<exists>n. rf k vs = (k, IntV n))"

text \<open>
  The output file of reducer \<open>i\<close> holds the records of pairs with clean and pairwise
  different keys.
\<close>

definition good_output :: "filesystem \<Rightarrow> int \<Rightarrow> bool" where
  "good_output fs i =
     (\<exists>results. files fs (output_path i) = Some (write_records (map (\<lambda>(k, n). (k, IntV n)) results))
        \<and> distinct (map fst results) \<and> list_all (\<lambda>p. clean_key (fst p)) results)"

text \<open>What a job run gave, and the files it left.\<close>

definition job_outcome :: "error + master \<times> filesystem \<times> outcome \<Rightarrow> error + outcome" where
  "job_outcome r = (case r of Inl e \<Rightarrow> Inl e | Inr (m, fs, out) \<Rightarrow> Inr out)"

definition job_files :: "error + master \<times> filesystem \<times> outcome \<Rightarrow> string \<Rightarrow> string option" where
  "job_files r = (case r of Inl e \<Rightarrow> Map.empty | Inr (m, fs, out) \<Rightarrow> files fs)"

section \<open>Concrete inputs for the examples\<close>

text \<open>
  A file system holding exactly the listed files in which every path can be written, and
  one in which none can.
\<close>

definition fs_of :: "(string \<times> string) list \<Rightarrow> filesystem" where
  "fs_of entries = \<lparr>files = map_of entries, writable = (\<lambda>name. True)\<rparr>"

definition read_only_fs :: "(string \<times> string) list \<Rightarrow> filesystem" where
  "read_only_fs entries = \<lparr>files = map_of entries, writable = (\<lambda>name. False)\<rparr>"

text \<open>
  \<open>create_worker(worker_id, port)\<close>: a worker with the word-count functions, listening on
  the default host, in a process with the given hash secret.
\<close>

definition create_worker :: "int \<Rightarrow> int \<Rightarrow> hash_secret \<Rightarrow> worker" where
  "create_worker wid port secret =
     \<lparr>worker_id = wid, address = ''http://127.0.0.1:'' @ py_str_int port,
      map_func = wc_map_func, reduce_func = wc_reduce_func, hash_secret = secret\<rparr>"

text \<open>
  Output directories for the merger: one where reducer 0 wrote nothing and reducer 1
  wrote one record, and one where the file of reducer 0 holds a line without a TAB.
\<close>

definition fs_only_reduce1 :: filesystem where
  "fs_only_reduce1 = fs_of [(''data/output/reduce-1.txt'', ''the'' @ [TAB] @ ''2'' @ [LF])]"

definition fs_malformed :: filesystem where
  "fs_malformed = fs_of [(''data/output/reduce-0.txt'', ''the 2'' @ [LF])]"

text \<open>
  Two workers as two interpreter processes: the first with the all-zero hash secret
  (\<open>PYTHONHASHSEED=0\<close>), the second with the secret that \<open>PYTHONHASHSEED=1\<close> derives.
\<close>

definition worker0 :: worker where
  "worker0 = create_worker 0 5001 (0, 0)"

definition worker1 :: worker where
  "worker1 = create_worker 1 5002 (0xaed66ce184be2329, 0xebe9bbf1f1499052)"

text \<open>Input directories for a map task: no chunk at all, and one chunk on a disk that cannot be written.\<close>

definition fs_no_input :: filesystem where
  "fs_no_input = fs_of []"

definition fs_read_only :: filesystem where
  "fs_read_only = read_only_fs [(''data/chunks/chunk-0.txt'', ''the'')]"

text \<open>
  A partition file and an output file whose only record carries a value that is text, as
  a map function emitting \<open>(word, "one")\<close> would leave it.
\<close>

definition fs_text_value :: filesystem where
  "fs_text_value = fs_of
     [(''data/intermediate/map-0-reduce-1.txt'', ''the'' @ [TAB] @ ''one'' @ [LF]),
      (''data/output/reduce-0.txt'', ''the'' @ [TAB] @ ''one'' @ [LF])]"

text \<open>Two chunks holding the same single word, for a job on the two workers.\<close>

definition fs_two_chunks :: filesystem where
  "fs_two_chunks = fs_of
     [(''data/chunks/chunk-0.txt'', ''the''), (''data/chunks/chunk-1.txt'', ''the'')]"

text \<open>The files after the job on the two workers has run over the two chunks.\<close>

definition fs_two_chunks_done :: filesystem where
  "fs_two_chunks_done = fs_of
     [(final_path, write_records [(''the'', IntV 1), (''the'', IntV 1)]),
      (output_path 3, write_records [(''the'', IntV 1)]),
      (output_path 2, write_records []),
      (output_path 1, write_records [(''the'', IntV 1)]),
      (output_path 0, write_records []),
      (partition_path 1 3, write_records [(''the'', IntV 1)]),
      (partition_path 0 1, write_records [(''the'', IntV 1)]),
      (''data/chunks/chunk-0.txt'', ''the''), (''data/chunks/chunk-1.txt'', ''the'')]"

section \<open>Hash values of the examples\<close>

lemma siphash13_zero_the: "siphash13 0 0 ''the'' = 18415922922211966513"
  by code_simp

lemma sint_zero_the: "sint (18415922922211966513 :: u64) = - 30821151497585103"
  by code_simp

lemma py_hash_zero_the: "py_hash (0, 0) ''the'' = - 30821151497585103"
  unfolding py_hash_def fst_conv snd_conv siphash13_zero_the sint_zero_the by simp

lemma siphash13_one_the:
  "siphash13 0xaed66ce184be2329 0xebe9bbf1f1499052 ''the'' = 16495983393000694171"
  by code_simp

lemma sint_one_the: "sint (16495983393000694171 :: u64) = - 1950760680708857445"
  by code_simp

lemma py_hash_one_the:
  "py_hash (0xaed66ce184be2329, 0xebe9bbf1f1499052) ''the'' = - 1950760680708857445"
  unfolding py_hash_def fst_conv snd_conv siphash13_one_the sint_one_the by simp

lemma reducer_of_zero_the: "reducer_of (0, 0) ''the'' 4 = Inr 1"
  by (simp add: reducer_of_def py_hash_zero_the)

lemma reducer_of_one_the:
  "reducer_of (0xaed66ce184be2329, 0xebe9bbf1f1499052) ''the'' 4 = Inr 3"
  by (simp add: reducer_of_def py_hash_one_the)

lemma nat_str_digit: "n < 10 \<Longrightarrow> nat_str n = [digit_char n]"
  by (simp add: nat_str.simps)

lemma digit_chars:
  "digit_char 0 = CHR ''0''" "digit_char 1 = CHR ''1''" "digit_char 2 = CHR ''2''"
  "digit_char 3 = CHR ''3''" "digit_char 4 = CHR ''4''"
  by code_simp+

lemma wc_map_func_the: "wc_map_func ''the'' = [(''the'', IntV 1)]"
  by code_simp

section \<open>Text primitives: stripping, splitting, integers as text\<close>

lemma strip_with_id: "s \<noteq> [] \<Longrightarrow> \<not> p (hd s) \<Longrightarrow> \<not> p (last s) \<Longrightarrow> strip_with p s = s"
proof -
  assume s: "s \<noteq> []" and h: "\<not> p (hd s)" and l: "\<not> p (last s)"
  from s h have "dropWhile p s = s"
    by (cases s) auto
  moreover from s l have "dropWhile p (rev s) = rev s"
    by (cases "rev s") (auto simp: last_rev [symmetric] hd_rev)
  ultimately show ?thesis
    by (simp add: strip_with_def)
qed

lemma strip_with_snoc: "p c \<Longrightarrow> strip_with p (s @ [c]) = strip_with p s"
proof (cases "\<forall>x \<in> set s. p x")
  case True
  assume "p c"
  with True have a: "dropWhile p (s @ [c]) = []"
    by (induction s) auto
  from True have b: "dropWhile p s = []"
    by (induction s) auto
  show ?thesis unfolding strip_with_def a b ..
next
  case False
  assume "p c"
  from False obtain x where "x \<in> set s" "\<not> p x"
    by blast
  then have "dropWhile p (s @ [c]) = dropWhile p s @ [c]"
    by (rule dropWhile_append1)
  with \<open>p c\<close> show ?thesis
    by (simp add: strip_with_def)
qed

lemma split_on_no_sep: "sep \<notin> set s \<Longrightarrow> split_on sep cur s = [cur @ s]"
  by (induction s arbitrary: cur) auto

lemma split_on_sep:
  "sep \<notin> set a \<Longrightarrow> split_on sep cur (a @ sep # b) = (cur @ a) # split_on sep [] b"
  by (induction a arbitrary: cur) auto

lemma split_on_fields_all: "sep \<notin> set cur \<Longrightarrow> \<forall>f \<in> set (split_on sep cur s). sep \<notin> set f"
proof (induction s arbitrary: cur)
  case Nil
  then show ?case by simp
next
  case (Cons c s)
  show ?case
  proof (cases "c = sep")
    case True
    with Cons.prems Cons.IH [of "[]"] show ?thesis by simp
  next
    case False
    with Cons.prems Cons.IH [of "cur @ [c]"] show ?thesis by simp
  qed
qed

lemma split_on_fields: "f \<in> set (split_on sep cur s) \<Longrightarrow> sep \<notin> set cur \<Longrightarrow> sep \<notin> set f"
  using split_on_fields_all by blast

lemma of_char_digit_char: "d < 10 \<Longrightarrow> (of_char (digit_char d) :: nat) = 48 + d"
  by (simp add: digit_char_def)

lemma is_digit_digit_char: "d < 10 \<Longrightarrow> is_digit (digit_char d)"
  by (simp add: is_digit_def of_char_digit_char)

lemma digit_val_digit_char: "d < 10 \<Longrightarrow> digit_val (digit_char d) = int d"
  by (simp add: digit_val_def of_char_digit_char)

lemma nat_str_not_empty: "nat_str n \<noteq> []"
  by (subst nat_str.simps) simp

lemma nat_str_digits: "c \<in> set (nat_str n) \<Longrightarrow> is_digit c"
proof (induction n rule: nat_str.induct)
  case (1 n)
  show ?case
  proof (cases "n < 10")
    case True
    with "1.prems" show ?thesis
      by (subst (asm) nat_str.simps) (simp add: is_digit_digit_char)
  next
    case False
    with "1.prems" "1.IH" show ?thesis
      by (subst (asm) nat_str.simps) (auto simp: is_digit_digit_char)
  qed
qed

lemma parse_digits_nat_str:
  "parse_digits p acc (nat_str n @ rest)
     = parse_digits True (acc * 10 ^ length (nat_str n) + int n) rest"
proof (induction n arbitrary: p acc rest rule: nat_str.induct)
  case (1 n)
  show ?case
  proof (cases "n < 10")
    case True
    then have "nat_str n = [digit_char n]"
      by (subst nat_str.simps) simp
    with True show ?thesis
      by (simp add: is_digit_digit_char digit_val_digit_char)
  next
    case False
    then have ns: "nat_str n = nat_str (n div 10) @ [digit_char (n mod 10)]"
      by (subst nat_str.simps) simp
    have d: "n mod 10 < 10" by simp
    have "parse_digits p acc (nat_str n @ rest)
        = parse_digits True (acc * 10 ^ length (nat_str (n div 10)) + int (n div 10))
            (digit_char (n mod 10) # rest)"
      using "1.IH" [OF False, of p acc "digit_char (n mod 10) # rest"] by (simp add: ns)
    also have "\<dots> = parse_digits True
        ((acc * 10 ^ length (nat_str (n div 10)) + int (n div 10)) * 10 + int (n mod 10)) rest"
      by (simp add: is_digit_digit_char [OF d] digit_val_digit_char [OF d])
    also have "(acc * 10 ^ length (nat_str (n div 10)) + int (n div 10)) * 10 + int (n mod 10)
        = acc * 10 ^ length (nat_str n) + int n"
      by (simp add: ns algebra_simps zmod_int zdiv_int)
    finally show ?thesis .
  qed
qed

lemma is_digit_simps:
  "is_digit c \<Longrightarrow> \<not> int_space c \<and> \<not> py_isspace c \<and> c \<noteq> TAB \<and> c \<noteq> LF \<and> c \<noteq> CR
     \<and> c \<noteq> CHR ''-'' \<and> c \<noteq> CHR ''+'' \<and> c \<noteq> CHR ''_''"
  by (auto simp: is_digit_def int_space_def py_isspace_def TAB_def LF_def CR_def)

lemma py_int_nat_str: "py_int (nat_str n) = Inr (int n)"
proof -
  obtain c r where cr: "nat_str n = c # r"
    using nat_str_not_empty [of n] by (cases "nat_str n") auto
  have dig: "\<And>x. x \<in> set (nat_str n) \<Longrightarrow> is_digit x"
    by (rule nat_str_digits)
  have "is_digit (hd (nat_str n))" "is_digit (last (nat_str n))"
    using nat_str_not_empty [of n] dig by auto
  then have st: "strip_with int_space (nat_str n) = nat_str n"
    using nat_str_not_empty [of n] is_digit_simps by (intro strip_with_id) auto
  have c: "c \<noteq> CHR ''-''" "c \<noteq> CHR ''+''"
    using dig [of c] is_digit_simps [of c] cr by auto
  have "parse_digits False 0 (nat_str n @ []) = Some (int n)"
    by (subst parse_digits_nat_str) simp
  then show ?thesis
    using cr c st by (simp add: py_int_def)
qed

lemma py_int_py_str_int: "py_int (py_str_int i) = Inr i"
proof (cases "i < 0")
  case False
  then show ?thesis
    by (simp add: py_str_int_def py_int_nat_str)
next
  case True
  let ?ds = "nat_str (nat (- i))"
  have dig: "\<And>x. x \<in> set ?ds \<Longrightarrow> is_digit x"
    by (rule nat_str_digits)
  have ne: "?ds \<noteq> []" by (rule nat_str_not_empty)
  have "\<not> int_space (CHR ''-'')"
    by (simp add: int_space_def)
  moreover have "\<not> int_space (last (CHR ''-'' # ?ds))"
    using ne dig [of "last ?ds"] is_digit_simps by auto
  ultimately have st: "strip_with int_space (CHR ''-'' # ?ds) = CHR ''-'' # ?ds"
    by (intro strip_with_id) auto
  have "parse_digits False 0 (?ds @ []) = Some (int (nat (- i)))"
    by (subst parse_digits_nat_str) simp
  with True st show ?thesis
    by (simp add: py_str_int_def py_int_def)
qed

lemma py_str_int_chars:
  "c \<in> set (py_str_int i) \<Longrightarrow> \<not> py_isspace c \<and> c \<noteq> TAB \<and> c \<noteq> LF \<and> c \<noteq> CR"
proof -
  assume "c \<in> set (py_str_int i)"
  then have "c = CHR ''-'' \<or> is_digit c"
    by (auto simp: py_str_int_def dest: nat_str_digits split: if_splits)
  then show ?thesis
    using is_digit_simps [of c] by (auto simp: py_isspace_def TAB_def LF_def CR_def)
qed

lemma py_str_int_not_empty: "py_str_int i \<noteq> []"
  by (simp add: py_str_int_def nat_str_not_empty)

lemma py_str_int_inj: "py_str_int i = py_str_int j \<Longrightarrow> i = j"
  by (metis py_int_py_str_int sum.inject(2))

section \<open>Record files: lines written and lines read\<close>

lemma file_lines_record:
  "LF \<notin> set l \<Longrightarrow> CR \<notin> set l \<Longrightarrow>
     file_lines False cur (l @ LF # rest) = (cur @ l @ [LF]) # file_lines False [] rest"
  by (induction l arbitrary: cur) (auto simp: LF_def CR_def)

lemma write_records_Cons:
  "write_records (item # items) = fst item @ TAB # py_str (snd item) @ LF # write_records items"
  by (cases item) (simp add: write_records_def)

lemma lines_of_write_records:
  "\<forall>item \<in> set items. LF \<notin> set (fst item) \<and> CR \<notin> set (fst item)
      \<and> LF \<notin> set (py_str (snd item)) \<and> CR \<notin> set (py_str (snd item)) \<Longrightarrow>
   lines_of (write_records items) = map (\<lambda>item. fst item @ TAB # py_str (snd item) @ [LF]) items"
proof (induction items)
  case Nil
  then show ?case by (simp add: lines_of_def write_records_def)
next
  case (Cons item items)
  let ?l = "fst item @ TAB # py_str (snd item)"
  from Cons.prems have "LF \<notin> set ?l" "CR \<notin> set ?l"
    by (auto simp: TAB_def LF_def CR_def)
  then have "file_lines False [] (?l @ LF # write_records items)
      = ([] @ ?l @ [LF]) # file_lines False [] (write_records items)"
    by (rule file_lines_record)
  with Cons show ?case
    by (simp add: lines_of_def write_records_Cons)
qed

lemma parse_line_record:
  assumes "clean_key k"
  shows "parse_line (k @ TAB # py_str_int n @ [LF]) = Inr (Some (k, n))"
proof -
  let ?ds = "py_str_int n"
  let ?s = "k @ TAB # ?ds"
  from assms have k: "k \<noteq> []" "\<not> py_isspace (hd k)" "TAB \<notin> set k"
    by (simp_all add: clean_key_def)
  have ds: "?ds \<noteq> []" by (rule py_str_int_not_empty)
  have "\<not> py_isspace (last ?ds)"
    using ds py_str_int_chars [of "last ?ds" n] by simp
  then have "strip_with py_isspace ?s = ?s"
    using k ds by (intro strip_with_id) auto
  moreover have "py_isspace LF"
    by (simp add: py_isspace_def LF_def)
  then have "strip_with py_isspace (?s @ [LF]) = strip_with py_isspace ?s"
    by (rule strip_with_snoc)
  ultimately have st: "py_strip (k @ TAB # ?ds @ [LF]) = ?s"
    by (simp add: py_strip_def)
  have "TAB \<notin> set ?ds"
    using py_str_int_chars [of TAB n] by blast
  then have sp: "py_split TAB ?s = [k, ?ds]"
    using k by (simp add: py_split_def split_on_sep split_on_no_sep)
  show ?thesis
    using k by (simp add: parse_line_def st sp py_int_py_str_int)
qed

section \<open>The reducer index is in range\<close>

text \<open>
  C9. For every key, every hash secret and every reducer count \<open>R > 0\<close>, the map step's
  \<open>hash(key) % R\<close> is defined and lies in \<open>[0, R)\<close>, also when the hash is negative.
\<close>

theorem reducer_of_in_range:
  "0 < R \<Longrightarrow> \<exists>r. reducer_of secret key R = Inr r \<and> 0 \<le> r \<and> r < R"
  by (simp add: reducer_of_def)

theorem reducer_of_in_range_witness:
  "(0::int) < 4 \<and> py_hash (0, 0) ''the'' < 0
   \<and> (\<exists>r. reducer_of (0, 0) ''the'' 4 = Inr r \<and> 0 \<le> r \<and> r < 4)"
proof -
  have neg: "py_hash (0, 0) ''the'' < 0"
    by (simp add: py_hash_zero_the)
  have pos: "(0::int) < 4"
    by simp
  from reducer_of_in_range [OF pos, of "(0, 0)" "''the''"] neg pos show ?thesis
    by blast
qed

section \<open>The reducer of a key depends on the process\<close>

text \<open>
  C1 at two processes. With four reducers the key \<open>the\<close> goes to reducer 1 in a worker
  whose hash secret is all zero and to reducer 3 in a worker whose secret is the one
  derived from seed 1: the same key and reducer count, two reducer indices.
\<close>

theorem reducer_differs_between_processes:
  "reducer_of (hash_secret worker0) ''the'' 4 = Inr 1
   \<and> reducer_of (hash_secret worker1) ''the'' 4 = Inr 3
   \<and> reducer_of (hash_secret worker0) ''the'' 4 \<noteq> reducer_of (hash_secret worker1) ''the'' 4"
  by (simp add: worker0_def worker1_def create_worker_def reducer_of_zero_the reducer_of_one_the)

section \<open>Map-completion reports are counted one by one\<close>

lemma map_complete_counts:
  "map_complete t im m = (m', b) \<Longrightarrow>
     completed_maps m' = completed_maps m + 1 \<and> map_tasks m' = map_tasks m
     \<and> b = (completed_maps m + 1 = int (length (map_tasks m)))"
  by (auto simp: map_complete_def Let_def)

lemma lookup_extend_item:
  "lookup_list (extend_item k ws al) r = (if r = k then lookup_list al r @ ws else lookup_list al r)"
  by (induction al) auto

lemma lookup_store_intermediate:
  "lookup_list (store_intermediate manifest intermediate) r
     = lookup_list manifest r @ concat (map snd (filter (\<lambda>p. fst p = r) intermediate))"
  unfolding store_intermediate_def
proof (induction intermediate arbitrary: manifest)
  case Nil
  then show ?case by simp
next
  case (Cons p intermediate)
  obtain k ws where p: "p = (k, ws)" by (cases p)
  show ?case
    by (simp add: p Cons.IH lookup_extend_item)
qed

lemma map_complete_manifest:
  "map_complete t im m = (m', b) \<Longrightarrow>
     lookup_list (intermediate_files m') r
       = lookup_list (intermediate_files m) r @ concat (map snd (filter (\<lambda>p. fst p = r) im))"
  by (auto simp: map_complete_def Let_def lookup_store_intermediate)

text \<open>
  C2, as the code has it, for handlers that run one at a time (the master takes no lock,
  so the serial order is a condition of the statement and not something the code
  ensures). The handler of \<open>/map_complete\<close> never looks at the task id. Every report, a
  repeated one included, adds one to the counter and appends the files it names for a
  reducer to that reducer's list in the manifest. So over any sequence of reports the
  counter grows by the number of reports, the list of every reducer \<open>r\<close> grows by the
  files the reports name for \<open>r\<close>, in the order of the reports, and the reduce phase is
  started by the one report that brings the counter to the number of map tasks: at most
  once, and exactly once when the counter was below the number of map tasks before and
  the reports are enough to reach it.
\<close>

theorem map_reports_count:
  "completed_maps (fst (map_reports reports m)) = completed_maps m + int (length reports)
   \<and> map_tasks (fst (map_reports reports m)) = map_tasks m
   \<and> lookup_list (intermediate_files (fst (map_reports reports m))) r
       = lookup_list (intermediate_files m) r
           @ concat (map (\<lambda>report. concat (map snd (filter (\<lambda>p. fst p = r) (snd report)))) reports)
   \<and> snd (map_reports reports m) =
       (if completed_maps m < int (length (map_tasks m))
           \<and> int (length (map_tasks m)) \<le> completed_maps m + int (length reports)
        then 1 else 0)"
proof (induction reports arbitrary: m)
  case Nil
  then show ?case by simp
next
  case (Cons rep rest)
  obtain t im where rep: "rep = (t, im)" by (cases rep)
  obtain m' b where mc: "map_complete t im m = (m', b)" by (cases "map_complete t im m")
  note c = map_complete_counts [OF mc]
  note f = map_complete_manifest [OF mc, of r]
  obtain m'' n where mr: "map_reports rest m' = (m'', n)" by (cases "map_reports rest m'")
  from Cons.IH [of m'] mr c f show ?case
    by (auto simp: rep mc)
qed

theorem map_reports_count_witness:
  "completed_maps (fst (map_reports
      [(''map-0'', [(1, [''a.txt''])]), (''map-1'', [(1, [''b.txt''])]), (''map-1'', [(1, [''b.txt''])])]
      ((init_master 4)\<lparr>map_tasks := [''chunk-0.txt'', ''chunk-1.txt'']\<rparr>))) = 3
   \<and> lookup_list (intermediate_files (fst (map_reports
      [(''map-0'', [(1, [''a.txt''])]), (''map-1'', [(1, [''b.txt''])]), (''map-1'', [(1, [''b.txt''])])]
      ((init_master 4)\<lparr>map_tasks := [''chunk-0.txt'', ''chunk-1.txt'']\<rparr>)))) 1
       = [''a.txt'', ''b.txt'', ''b.txt'']
   \<and> snd (map_reports
      [(''map-0'', [(1, [''a.txt''])]), (''map-1'', [(1, [''b.txt''])]), (''map-1'', [(1, [''b.txt''])])]
      ((init_master 4)\<lparr>map_tasks := [''chunk-0.txt'', ''chunk-1.txt'']\<rparr>)) = 1"
  using map_reports_count
    [of "[(''map-0'', [(1, [''a.txt''])]), (''map-1'', [(1, [''b.txt''])]), (''map-1'', [(1, [''b.txt''])])]"
      "(init_master 4)\<lparr>map_tasks := [''chunk-0.txt'', ''chunk-1.txt'']\<rparr>" 1]
  by (simp add: init_master_def)

text \<open>
  With two map tasks, the report of \<open>map-0\<close> arriving twice: one distinct task id has
  reported, the counter stands at 2, and the reduce phase has been started although
  \<open>map-1\<close> never reported.
\<close>

theorem duplicate_report_counted_twice:
  "completed_maps (fst (map_reports [(''map-0'', []), (''map-0'', [])]
      ((init_master 4)\<lparr>map_tasks := [''chunk-0.txt'', ''chunk-1.txt'']\<rparr>))) = 2
   \<and> card (set (map fst [(''map-0'', [] :: (int \<times> string list) list), (''map-0'', [])])) = 1
   \<and> snd (map_reports [(''map-0'', []), (''map-0'', [])]
      ((init_master 4)\<lparr>map_tasks := [''chunk-0.txt'', ''chunk-1.txt'']\<rparr>)) = 1"
  by (simp add: map_complete_def init_master_def store_intermediate_def)

section \<open>The merger: missing files are skipped, malformed lines are not\<close>

lemma py_int_error: "py_int s = Inl e \<Longrightarrow> e = ValueError"
  by (auto simp: py_int_def Let_def split: list.splits option.splits)

lemma parse_line_error: "parse_line l = Inl e \<Longrightarrow> e = ValueError"
  by (auto simp: parse_line_def Let_def split: list.splits sum.splits if_splits dest: py_int_error)

lemma parse_lines_acc:
  "parse_lines acc ls = (case parse_lines [] ls of Inl e \<Rightarrow> Inl e | Inr ps \<Rightarrow> Inr (acc @ ps))"
proof (induction ls arbitrary: acc)
  case Nil
  then show ?case by simp
next
  case (Cons l ls)
  show ?case
  proof (cases "parse_line l")
    case (Inl e)
    then show ?thesis by simp
  next
    case (Inr r)
    show ?thesis
    proof (cases r)
      case None
      with Inr Cons.IH [of acc] show ?thesis by simp
    next
      case (Some kv)
      obtain k v where kv: "kv = (k, v)" by (cases kv)
      from Cons.IH [of "acc @ [(k, v)]"] Cons.IH [of "[(k, v)]"] Inr Some kv show ?thesis
        by (auto split: sum.splits)
    qed
  qed
qed

lemma parse_lines_error: "parse_lines acc ls = Inl e \<Longrightarrow> e = ValueError"
  by (induction ls arbitrary: acc) (auto split: sum.splits option.splits dest: parse_line_error)

lemma output_entries_error: "output_entries fs i = Inl e \<Longrightarrow> e = ValueError"
  by (auto simp: output_entries_def split: option.splits dest: parse_lines_error)

lemma read_outputs_char:
  "read_outputs fs acc ids =
     (if \<exists>i \<in> set ids. isl (output_entries fs i) then Inl ValueError
      else Inr (acc @ concat (map (entries_or_none fs) ids)))"
proof (induction ids arbitrary: acc)
  case Nil
  then show ?case by simp
next
  case (Cons i ids)
  show ?case
  proof (cases "files fs (output_path i)")
    case None
    then have "output_entries fs i = Inr []" "entries_or_none fs i = []"
      by (simp_all add: output_entries_def entries_or_none_def)
    with None Cons.IH [of acc] show ?thesis
      by (simp add: read_file_def)
  next
    case (Some body)
    show ?thesis
    proof (cases "parse_lines [] (lines_of body)")
      case (Inl e)
      then have e: "e = ValueError" by (rule parse_lines_error)
      from Inl Some have "output_entries fs i = Inl e"
        by (simp add: output_entries_def)
      moreover from Inl have "parse_lines acc (lines_of body) = Inl e"
        by (subst parse_lines_acc) simp
      ultimately show ?thesis using Some e
        by (simp add: read_file_def)
    next
      case (Inr ps)
      from Inr Some have oe: "output_entries fs i = Inr ps" "entries_or_none fs i = ps"
        by (simp_all add: output_entries_def entries_or_none_def)
      from Inr have "parse_lines acc (lines_of body) = Inr (acc @ ps)"
        by (subst parse_lines_acc) simp
      with Some oe Cons.IH [of "acc @ ps"] show ?thesis
        by (simp add: read_file_def)
    qed
  qed
qed

lemma merge_results_char:
  assumes "writable fs final_path"
  shows "merge_results m fs =
     (if \<exists>i \<in> set (py_range (num_reduce_tasks m)). isl (output_entries fs i) then Inl ValueError
      else Inr (fs\<lparr>files := (files fs)(final_path \<mapsto>
                    final_text (sort_by_count (concat (map (entries_or_none fs) (py_range (num_reduce_tasks m))))))\<rparr>,
                sort_by_count (concat (map (entries_or_none fs) (py_range (num_reduce_tasks m))))))"
  using assms by (simp add: merge_results_def read_outputs_char write_file_def final_text_def Let_def)

text \<open>
  C4, as the code has it. The merger catches \<open>FileNotFoundError\<close> and nothing else. When
  the final file can be written and every per-reducer file that exists parses, the merge
  completes whichever files are missing: a missing file contributes no entry and the
  result is the sorted concatenation of the entries of the files present.
\<close>

theorem merge_results_tolerates_missing:
  assumes "writable fs final_path"
    and "\<forall>i \<in> set (py_range (num_reduce_tasks m)). \<not> isl (output_entries fs i)"
  shows "(\<exists>fs'. merge_results m fs =
            Inr (fs', sort_by_count (concat (map (entries_or_none fs) (py_range (num_reduce_tasks m))))))
         \<and> (\<forall>i. files fs (output_path i) = None \<longrightarrow> entries_or_none fs i = [])"
  using assms by (auto simp: merge_results_char entries_or_none_def output_entries_def)

theorem merge_results_tolerates_missing_witness:
  "writable fs_only_reduce1 final_path
   \<and> py_range (num_reduce_tasks (init_master 2)) = [0, 1]
   \<and> output_entries fs_only_reduce1 0 = Inr []
   \<and> output_entries fs_only_reduce1 1 = Inr [(''the'', 2)]
   \<and> files fs_only_reduce1 (output_path 0) = None
   \<and> (\<exists>fs'. merge_results (init_master 2) fs_only_reduce1 = Inr (fs', [(''the'', 2)]))"
proof -
  have w: "writable fs_only_reduce1 final_path"
    by (simp add: fs_only_reduce1_def fs_of_def)
  have r: "py_range (num_reduce_tasks (init_master 2)) = [0, 1]"
    by code_simp
  have e0: "output_entries fs_only_reduce1 0 = Inr []"
    by code_simp
  have e1: "output_entries fs_only_reduce1 1 = Inr [(''the'', 2)]"
    by code_simp
  have p: "\<forall>i \<in> set (py_range (num_reduce_tasks (init_master 2))).
      \<not> isl (output_entries fs_only_reduce1 i)"
    by (simp add: r e0 e1)
  have n: "files fs_only_reduce1 (output_path 0) = None"
    by code_simp
  have s: "sort_by_count [(''the'', 2)] = [(''the'', 2)]"
    by (simp add: sort_by_count_def)
  from merge_results_tolerates_missing [OF w p] w n show ?thesis
    by (simp add: r entries_or_none_def e0 e1 s)
qed

text \<open>
  A line without a TAB in the file of reducer 0 (the only reducer): the merge raises
  \<open>ValueError\<close> and gives no result.
\<close>

theorem merge_results_malformed_raises:
  "files fs_malformed ''data/output/reduce-0.txt'' = Some (''the 2'' @ [LF])
   \<and> merge_results (init_master 1) fs_malformed = Inl ValueError"
proof -
  have w: "writable fs_malformed final_path"
    by (simp add: fs_malformed_def fs_of_def)
  have r: "py_range (num_reduce_tasks (init_master 1)) = [0]"
    by code_simp
  have e0: "isl (output_entries fs_malformed 0)"
    by code_simp
  have f: "files fs_malformed ''data/output/reduce-0.txt'' = Some (''the 2'' @ [LF])"
    by (simp add: fs_malformed_def fs_of_def)
  from merge_results_char [OF w, of "init_master 1"] f show ?thesis
    by (simp add: r e0)
qed

section \<open>Errors in the map step\<close>

lemma write_partitions_unwritable:
  "\<exists>p \<in> set parts. \<not> writable fs (partition_path n (fst p)) \<Longrightarrow>
     \<exists>fs'. write_partitions n parts fs acc = (fs', Inl OSError)"
proof (induction parts arbitrary: fs acc)
  case Nil
  then show ?case by simp
next
  case (Cons p parts)
  obtain rid items where p: "p = (rid, items)" by (cases p)
  show ?case
  proof (cases "writable fs (partition_path n rid)")
    case False
    then show ?thesis by (simp add: p write_file_def)
  next
    case True
    define fs1 where "fs1 = fs\<lparr>files := (files fs)(partition_path n rid \<mapsto> write_records items)\<rparr>"
    have w: "write_file fs (partition_path n rid) (write_records items) = Inr fs1"
      using True by (simp add: write_file_def fs1_def)
    have "writable fs1 = writable fs" by (simp add: fs1_def)
    with Cons.prems True p have "\<exists>q \<in> set parts. \<not> writable fs1 (partition_path n (fst q))"
      by auto
    from Cons.IH [OF this] w show ?thesis by (simp add: p)
  qed
qed

lemma execute_map_task_id:
  "execute_map w t f R n fs = (fs', resp, None) \<Longrightarrow> execute_map w t' f R n fs = (fs', resp, None)"
  by (auto simp: execute_map_def Let_def split: sum.splits prod.splits)

text \<open>
  C6. Whatever the map handler is given, it answers. When the input file cannot be read
  the answer is the failed status with that error, nothing is posted to the master and the
  file system is as before; when a partition file cannot be written the answer is the
  failed status with that error and nothing is posted. The completion report is posted
  exactly when the answer is \<open>completed\<close>. A task that posted nothing leaves the master's
  state as it was: the master goes on to the next task and never dispatches this one
  again.
\<close>

theorem execute_map_errors_caught:
  assumes "execute_map w task_id input_file R n fs = (fs', resp, report)"
  shows "(\<forall>e. read_file fs input_file = Inl e \<longrightarrow> fs' = fs \<and> resp = Failed e \<and> report = None)
     \<and> (\<forall>body parts. read_file fs input_file = Inr body
            \<and> partition_items (hash_secret w) R [] (map_func w body) = Inr parts
            \<and> (\<exists>p \<in> set parts. \<not> writable fs (partition_path n (fst p)))
          \<longrightarrow> resp = Failed OSError \<and> report = None)
     \<and> (report = None) = (resp \<noteq> Completed)
     \<and> (report = None \<and> worker_for ws n = Inr w \<and> R = num_reduce_tasks m \<longrightarrow>
          map_phase ws ((n, input_file) # rest) m fs = map_phase ws rest m fs')"
proof (intro conjI allI impI)
  fix e
  assume "read_file fs input_file = Inl e"
  with assms show "fs' = fs" "resp = Failed e" "report = None"
    by (simp_all add: execute_map_def)
next
  fix body parts
  assume h: "read_file fs input_file = Inr body
            \<and> partition_items (hash_secret w) R [] (map_func w body) = Inr parts
            \<and> (\<exists>p \<in> set parts. \<not> writable fs (partition_path n (fst p)))"
  then obtain fs1 where "write_partitions n parts fs [] = (fs1, Inl OSError)"
    using write_partitions_unwritable by blast
  with h assms show "resp = Failed OSError" "report = None"
    by (simp_all add: execute_map_def)
next
  from assms show "(report = None) = (resp \<noteq> Completed)"
    by (auto simp: execute_map_def Let_def split: sum.splits prod.splits)
next
  assume h: "report = None \<and> worker_for ws n = Inr w \<and> R = num_reduce_tasks m"
  with assms have "execute_map w (''map-'' @ py_str_int n) input_file (num_reduce_tasks m) n fs
      = (fs', resp, None)"
    using execute_map_task_id by blast
  with h show "map_phase ws ((n, input_file) # rest) m fs = map_phase ws rest m fs'"
    by simp
qed

theorem execute_map_errors_caught_witness:
  "read_file fs_no_input ''data/chunks/chunk-0.txt'' = Inl FileNotFoundError
   \<and> execute_map worker0 ''map-0'' ''data/chunks/chunk-0.txt'' 4 0 fs_no_input
       = (fs_no_input, Failed FileNotFoundError, None)
   \<and> read_file fs_read_only ''data/chunks/chunk-0.txt'' = Inr ''the''
   \<and> partition_items (hash_secret worker0) 4 [] (map_func worker0 ''the'')
       = Inr [(1, [(''the'', IntV 1)])]
   \<and> \<not> writable fs_read_only (partition_path 0 1)
   \<and> (\<exists>fs'. execute_map worker0 ''map-0'' ''data/chunks/chunk-0.txt'' 4 0 fs_read_only
       = (fs', Failed OSError, None))"
proof -
  have r1: "read_file fs_no_input ''data/chunks/chunk-0.txt'' = Inl FileNotFoundError"
    by (simp add: fs_no_input_def fs_of_def read_file_def)
  obtain fs1 resp1 report1
    where e1: "execute_map worker0 ''map-0'' ''data/chunks/chunk-0.txt'' 4 0 fs_no_input
      = (fs1, resp1, report1)"
    by (cases "execute_map worker0 ''map-0'' ''data/chunks/chunk-0.txt'' 4 0 fs_no_input")
  from execute_map_errors_caught [OF e1] r1
  have a: "fs1 = fs_no_input" "resp1 = Failed FileNotFoundError" "report1 = None"
    by blast+
  have r2: "read_file fs_read_only ''data/chunks/chunk-0.txt'' = Inr ''the''"
    by (simp add: fs_read_only_def read_only_fs_def read_file_def)
  have p2: "partition_items (hash_secret worker0) 4 [] (map_func worker0 ''the'')
      = Inr [(1, [(''the'', IntV 1)])]"
    by (simp add: worker0_def create_worker_def wc_map_func_the reducer_of_zero_the)
  have w2: "\<not> writable fs_read_only (partition_path 0 1)"
    by (simp add: fs_read_only_def read_only_fs_def)
  obtain fs2 resp2 report2
    where e2: "execute_map worker0 ''map-0'' ''data/chunks/chunk-0.txt'' 4 0 fs_read_only
      = (fs2, resp2, report2)"
    by (cases "execute_map worker0 ''map-0'' ''data/chunks/chunk-0.txt'' 4 0 fs_read_only")
  from execute_map_errors_caught [OF e2] r2 p2 w2
  have b: "resp2 = Failed OSError" "report2 = None"
    by fastforce+
  from r1 e1 a r2 p2 w2 e2 b show ?thesis
    by simp
qed

section \<open>Records written and read back\<close>

lemma parse_line_Some:
  "parse_line line = Inr (Some (k, n)) \<Longrightarrow>
     py_strip line \<noteq> [] \<and> (\<exists>v. py_split TAB (py_strip line) = [k, v] \<and> py_int v = Inr n)"
  by (auto simp: parse_line_def Let_def split: if_splits list.splits sum.splits)

lemma parse_line_key_no_tab: "parse_line line = Inr (Some (k, n)) \<Longrightarrow> TAB \<notin> set k"
proof -
  assume "parse_line line = Inr (Some (k, n))"
  then obtain v where "py_split TAB (py_strip line) = [k, v]"
    using parse_line_Some by blast
  then have "k \<in> set (split_on TAB [] (py_strip line))"
    by (simp add: py_split_def)
  then show ?thesis
    by (rule split_on_fields) simp
qed

lemma records_read_back:
  assumes clean: "\<forall>p \<in> set pairs. clean_key (fst p)"
  shows "map parse_line (lines_of (write_records (map (\<lambda>(k, n). (k, IntV n)) pairs)))
        = map (\<lambda>(k, n). Inr (Some (k, n))) pairs"
proof -
  let ?items = "map (\<lambda>(k, n). (k, IntV n)) pairs"
  have "\<forall>item \<in> set ?items. LF \<notin> set (fst item) \<and> CR \<notin> set (fst item)
      \<and> LF \<notin> set (py_str (snd item)) \<and> CR \<notin> set (py_str (snd item))"
    using clean py_str_int_chars by (fastforce simp: clean_key_def)
  then have "lines_of (write_records ?items)
      = map (\<lambda>item. fst item @ TAB # py_str (snd item) @ [LF]) ?items"
    by (rule lines_of_write_records)
  then have "map parse_line (lines_of (write_records ?items))
      = map (\<lambda>(k, n). parse_line (k @ TAB # py_str_int n @ [LF])) pairs"
    by (simp add: comp_def case_prod_beta)
  also have "\<dots> = map (\<lambda>(k, n). Inr (Some (k, n))) pairs"
    using clean by (intro map_cong) (auto simp: parse_line_record)
  finally show ?thesis .
qed

text \<open>
  C8, as the code has it. Records written as \<open>key TAB value LF\<close> and read back line by
  line give exactly the pairs written when the values are integers and every key is
  clean: not empty, not starting with whitespace (the reader strips the line) and free of
  TAB, LF and CR (the reader ends a line at CR too). A key that contains TAB is never
  recovered: no line read back parses to the pair written.
\<close>

theorem record_round_trip:
  "((\<forall>p \<in> set pairs. clean_key (fst p)) \<longrightarrow>
      map parse_line (lines_of (write_records (map (\<lambda>(k, n). (k, IntV n)) pairs)))
        = map (\<lambda>(k, n). Inr (Some (k, n))) pairs)
   \<and> (TAB \<in> set key \<longrightarrow>
        (\<forall>line \<in> set (lines_of (write_records [(key, IntV n)])).
           parse_line line \<noteq> Inr (Some (key, n))))"
proof (intro conjI impI ballI)
  assume "\<forall>p \<in> set pairs. clean_key (fst p)"
  then show "map parse_line (lines_of (write_records (map (\<lambda>(k, n). (k, IntV n)) pairs)))
      = map (\<lambda>(k, n). Inr (Some (k, n))) pairs"
    by (rule records_read_back)
next
  fix line
  assume "TAB \<in> set key"
  then show "parse_line line \<noteq> Inr (Some (key, n))"
    using parse_line_key_no_tab by blast
qed

theorem record_round_trip_witness:
  "clean_key ''the'' \<and> clean_key ''lazy dog''
   \<and> map parse_line (lines_of (write_records [(''the'', IntV 2), (''lazy dog'', IntV (- 1))]))
       = [Inr (Some (''the'', 2)), Inr (Some (''lazy dog'', - 1))]
   \<and> TAB \<in> set [CHR ''a'', TAB, CHR ''b'']
   \<and> lines_of (write_records [([CHR ''a'', TAB, CHR ''b''], IntV 1)])
       = [[CHR ''a'', TAB, CHR ''b'', TAB, CHR ''1'', LF]]
   \<and> parse_line [CHR ''a'', TAB, CHR ''b'', TAB, CHR ''1'', LF] \<noteq> Inr (Some ([CHR ''a'', TAB, CHR ''b''], 1))"
proof -
  have c: "clean_key ''the''" "clean_key ''lazy dog''"
    by code_simp+
  then have p: "\<forall>p \<in> set [(''the'', 2 :: int), (''lazy dog'', - 1)]. clean_key (fst p)"
    by simp
  have l: "lines_of (write_records [([CHR ''a'', TAB, CHR ''b''], IntV 1)])
       = [[CHR ''a'', TAB, CHR ''b'', TAB, CHR ''1'', LF]]"
    by code_simp
  have t: "TAB \<in> set [CHR ''a'', TAB, CHR ''b'']"
    by simp
  from record_round_trip [of "[(''the'', 2), (''lazy dog'', - 1)]" "[CHR ''a'', TAB, CHR ''b'']" 1]
    p t c l show ?thesis
    by simp
qed

text \<open>
  A key with a leading space holds neither TAB nor a newline, yet the record read back
  has lost the space: the pair recovered is not the pair written.
\<close>

theorem leading_space_key_not_recovered:
  "TAB \<notin> set '' the'' \<and> LF \<notin> set '' the'' \<and> CR \<notin> set '' the''
   \<and> map parse_line (lines_of (write_records [('' the'', IntV 1)])) = [Inr (Some (''the'', 1))]
   \<and> map parse_line (lines_of (write_records [('' the'', IntV 1)])) \<noteq> [Inr (Some ('' the'', 1))]"
  by code_simp

section \<open>Values that are not integers\<close>

lemma parse_digits_None_acc: "(parse_digits p a s = None) = (parse_digits p b s = None)"
  by (induction s arbitrary: p a b) auto

lemma parse_digits_True_Cons:
  "d \<noteq> CHR ''_'' \<Longrightarrow> (parse_digits True a (d # r) = None) = (parse_digits False b (d # r) = None)"
  using parse_digits_None_acc [of True _ r] by auto

lemma parse_digits_iff: "(parse_digits False acc s \<noteq> None) = digit_part s"
proof (induction s arbitrary: acc rule: digit_part.induct)
  case 1
  then show ?case by simp
next
  case (2 c)
  then show ?case by simp
next
  case (3 c d r)
  show ?case
  proof (cases "d = CHR ''_''")
    case True
    then have "\<not> is_digit d"
      by (simp add: is_digit_def)
    with True "3.IH"(1) [OF True] show ?thesis
      by simp
  next
    case False
    have step: "parse_digits False acc (c # d # r)
        = (if is_digit c then parse_digits True (acc * 10 + digit_val c) (d # r) else None)"
      by (simp only: parse_digits.simps) simp
    have "(parse_digits True (acc * 10 + digit_val c) (d # r) = None)
        = (parse_digits False acc (d # r) = None)"
      using False by (rule parse_digits_True_Cons)
    moreover have "(parse_digits False acc (d # r) \<noteq> None) = digit_part (d # r)"
      using False by (rule "3.IH"(2))
    ultimately have "(parse_digits True (acc * 10 + digit_val c) (d # r) \<noteq> None)
        = digit_part (d # r)"
      by simp
    with False show ?thesis
      by (simp only: step digit_part.simps split: if_splits) simp
  qed
qed

lemma py_int_iff: "isl (py_int s) = (\<not> int_numeral s)"
proof (cases "strip_with int_space s")
  case Nil
  then show ?thesis by (simp add: py_int_def int_numeral_def)
next
  case (Cons c r)
  let ?body = "if c = CHR ''-'' \<or> c = CHR ''+'' then r else c # r"
  from parse_digits_iff [of 0 ?body] Cons show ?thesis
    by (cases "parse_digits False 0 ?body") (auto simp: py_int_def int_numeral_def Let_def)
qed

lemma parse_line_bad_value:
  "py_split TAB (py_strip line) = [key, value] \<Longrightarrow> \<not> int_numeral value \<Longrightarrow>
     parse_line line = Inl ValueError"
proof -
  assume sp: "py_split TAB (py_strip line) = [key, value]" and nn: "\<not> int_numeral value"
  have "py_strip line \<noteq> []"
    using sp by (auto simp: py_split_def)
  moreover from nn obtain e where "py_int value = Inl e"
    using py_int_iff [of "value"] by (cases "py_int value") auto
  moreover from this have "e = ValueError"
    by (rule py_int_error)
  ultimately show ?thesis
    using sp by (simp add: parse_line_def)
qed

lemma group_lines_bad: "l \<in> set ls \<Longrightarrow> isl (parse_line l) \<Longrightarrow> isl (group_lines g ls)"
  by (induction ls arbitrary: g) (auto split: sum.splits option.splits)

lemma parse_lines_bad: "l \<in> set ls \<Longrightarrow> isl (parse_line l) \<Longrightarrow> isl (parse_lines acc ls)"
  by (induction ls arbitrary: acc) (auto split: sum.splits option.splits)

lemma group_files_bad:
  "name \<in> set names \<Longrightarrow> files fs name = Some body \<Longrightarrow> l \<in> set (lines_of body) \<Longrightarrow>
     isl (parse_line l) \<Longrightarrow> isl (group_files fs g names)"
proof (induction names arbitrary: g)
  case Nil
  then show ?case by simp
next
  case (Cons a names)
  show ?case
  proof (cases "a = name")
    case True
    with Cons.prems group_lines_bad [of l "lines_of body" g] show ?thesis
      by (auto simp: read_file_def split: sum.splits)
  next
    case False
    with Cons show ?thesis
      by (auto split: sum.splits)
  qed
qed

lemma execute_reduce_group_error:
  "isl (group_files fs [] input_files) \<Longrightarrow>
     \<exists>e. execute_reduce w task_id reducer_id input_files fs = (fs, Failed e, None)"
  by (cases "group_files fs [] input_files") (auto simp: execute_reduce_def)

text \<open>
  C10. Take any line that splits into a key and a value field where the value field is
  not an integer numeral. Parsing the line raises \<open>ValueError\<close>. A reduce task that has
  the file with this line among its input files fails: it answers with the failed status,
  writes nothing and posts no report. A merge that reads the line in one of the reducers'
  output files raises \<open>ValueError\<close> and gives no result.
\<close>

theorem non_integer_value_rejected:
  assumes "py_split TAB (py_strip line) = [key, value]" and "\<not> int_numeral value"
    and "files fs name = Some body" and "line \<in> set (lines_of body)"
  shows "parse_line line = Inl ValueError
     \<and> (name \<in> set input_files \<longrightarrow>
          (\<exists>e. execute_reduce w task_id reducer_id input_files fs = (fs, Failed e, None)))
     \<and> (name = output_path i \<and> i \<in> set (py_range (num_reduce_tasks m)) \<longrightarrow>
          merge_results m fs = Inl ValueError)"
proof (intro conjI impI)
  show pl: "parse_line line = Inl ValueError"
    using assms(1,2) by (rule parse_line_bad_value)
  then have bad: "isl (parse_line line)"
    by simp
  {
    assume "name \<in> set input_files"
    then have "isl (group_files fs [] input_files)"
      using assms(3,4) bad by (rule group_files_bad)
    then show "\<exists>e. execute_reduce w task_id reducer_id input_files fs = (fs, Failed e, None)"
      by (rule execute_reduce_group_error)
  }
  {
    assume h: "name = output_path i \<and> i \<in> set (py_range (num_reduce_tasks m))"
    have "isl (parse_lines [] (lines_of body))"
      using assms(4) bad by (rule parse_lines_bad)
    with h assms(3) have "isl (output_entries fs i)"
      by (simp add: output_entries_def)
    with h have "read_outputs fs [] (py_range (num_reduce_tasks m)) = Inl ValueError"
      by (auto simp: read_outputs_char)
    then show "merge_results m fs = Inl ValueError"
      by (simp add: merge_results_def)
  }
qed

theorem non_integer_value_rejected_witness:
  "py_split TAB (py_strip (''the'' @ [TAB] @ ''one'' @ [LF])) = [''the'', ''one'']
   \<and> \<not> int_numeral ''one''
   \<and> files fs_text_value ''data/intermediate/map-0-reduce-1.txt'' = Some (''the'' @ [TAB] @ ''one'' @ [LF])
   \<and> files fs_text_value (output_path 0) = Some (''the'' @ [TAB] @ ''one'' @ [LF])
   \<and> lines_of (''the'' @ [TAB] @ ''one'' @ [LF]) = [''the'' @ [TAB] @ ''one'' @ [LF]]
   \<and> parse_line (''the'' @ [TAB] @ ''one'' @ [LF]) = Inl ValueError
   \<and> (\<exists>e. execute_reduce worker0 ''reduce-1'' 1 [''data/intermediate/map-0-reduce-1.txt''] fs_text_value
         = (fs_text_value, Failed e, None))
   \<and> merge_results (init_master 1) fs_text_value = Inl ValueError"
proof -
  let ?line = "''the'' @ [TAB] @ ''one'' @ [LF]"
  have a1: "py_split TAB (py_strip ?line) = [''the'', ''one'']"
    by code_simp
  have a2: "\<not> int_numeral ''one''"
    by code_simp
  have a3: "files fs_text_value ''data/intermediate/map-0-reduce-1.txt'' = Some ?line"
    by code_simp
  have a3': "files fs_text_value (output_path 0) = Some ?line"
    by code_simp
  have a4: "?line \<in> set (lines_of ?line)"
    by code_simp
  have l: "lines_of ?line = [?line]"
    by code_simp
  have r: "0 \<in> set (py_range (num_reduce_tasks (init_master 1)))"
    by code_simp
  note t1 = non_integer_value_rejected [OF a1 a2 a3 a4,
      of "[''data/intermediate/map-0-reduce-1.txt'']" worker0 "''reduce-1''" 1 0 "init_master 1"]
  note t2 = non_integer_value_rejected [OF a1 a2 a3' a4,
      of "[]" worker0 "''reduce-1''" 1 0 "init_master 1"]
  from t1 have p1: "parse_line ?line = Inl ValueError"
    and p2: "\<exists>e. execute_reduce worker0 ''reduce-1'' 1 [''data/intermediate/map-0-reduce-1.txt''] fs_text_value
         = (fs_text_value, Failed e, None)"
    by simp_all
  from t2 r have p3: "merge_results (init_master 1) fs_text_value = Inl ValueError"
    by simp
  from a1 a2 a3 a3' l p1 p2 p3 show ?thesis
    by (intro conjI)
qed

section \<open>Keys read from record files\<close>

lemma strip_with_ends:
  "strip_with p s \<noteq> [] \<Longrightarrow> \<not> p (hd (strip_with p s)) \<and> \<not> p (last (strip_with p s))"
proof -
  assume ne: "strip_with p s \<noteq> []"
  let ?a = "dropWhile p s"
  let ?b = "dropWhile p (rev ?a)"
  from ne have b: "?b \<noteq> []"
    by (simp add: strip_with_def)
  then have "\<not> p (hd ?b)"
    by (rule hd_dropWhile)
  then have l: "\<not> p (last (strip_with p s))"
    using b by (simp add: strip_with_def last_rev)
  have a: "?a \<noteq> []"
  proof
    assume "?a = []"
    then have "?b = []"
      by (simp only: rev.simps dropWhile.simps)
    with b show False ..
  qed
  then have ha: "\<not> p (hd ?a)"
    by (rule hd_dropWhile)
  have "\<exists>zs. rev ?a = zs @ ?b"
    by (metis takeWhile_dropWhile_id)
  then obtain zs where "rev ?a = zs @ ?b" ..
  then have ab: "?a = rev ?b @ rev zs"
    by (metis rev_append rev_rev_ident)
  have rb: "rev ?b \<noteq> []"
    by (metis b rev_is_Nil_conv)
  have "hd ?a = hd (rev ?b)"
    by (metis ab rb hd_append2)
  with ha have "\<not> p (hd (strip_with p s))"
    by (metis strip_with_def)
  with l show ?thesis
    by blast
qed

lemma set_strip_with: "set (strip_with p s) \<subseteq> set s"
  by (auto simp: strip_with_def dest!: set_dropWhileD)

lemma file_lines_shape:
  "l \<in> set (file_lines b cur body) \<Longrightarrow> LF \<notin> set cur \<Longrightarrow> CR \<notin> set cur \<Longrightarrow>
     CR \<notin> set l \<and> LF \<notin> set (butlast l)"
proof (induction body arbitrary: b cur)
  case Nil
  then show ?case
    by (auto split: if_splits dest: in_set_butlastD)
next
  case (Cons c body)
  have neq: "CR \<noteq> LF"
    by (simp add: CR_def LF_def)
  have fresh: "CR \<notin> set (cur @ [LF])" "LF \<notin> set (butlast (cur @ [LF]))"
    using Cons.prems(2,3) neq by auto
  have empty: "LF \<notin> set ([] :: string)" "CR \<notin> set ([] :: string)"
    by simp_all
  consider (lf_skip) "c = LF" "b" | (lf) "c = LF" "\<not> b" | (cr) "c \<noteq> LF" "c = CR"
    | (other) "c \<noteq> LF" "c \<noteq> CR"
    by blast
  then show ?case
  proof cases
    case lf_skip
    with Cons.prems(1) have "l \<in> set (file_lines False cur body)"
      by simp
    then show ?thesis
      using Cons.prems(2,3) by (rule Cons.IH)
  next
    case lf
    with Cons.prems(1) have "l = cur @ [LF] \<or> l \<in> set (file_lines False [] body)"
      by simp
    then show ?thesis
      using fresh Cons.IH [of False "[]", OF _ empty] by blast
  next
    case cr
    with Cons.prems(1) have "l = cur @ [LF] \<or> l \<in> set (file_lines True [] body)"
      by simp
    then show ?thesis
      using fresh Cons.IH [of True "[]", OF _ empty] by blast
  next
    case other
    with Cons.prems(1) have "l \<in> set (file_lines False (cur @ [c]) body)"
      by simp
    moreover have "LF \<notin> set (cur @ [c])" "CR \<notin> set (cur @ [c])"
      using Cons.prems(2,3) other by auto
    ultimately show ?thesis
      by (rule Cons.IH)
  qed
qed

lemma lines_of_strip: "l \<in> set (lines_of body) \<Longrightarrow> LF \<notin> set (py_strip l) \<and> CR \<notin> set (py_strip l)"
proof -
  assume "l \<in> set (lines_of body)"
  then have sh: "CR \<notin> set l" "LF \<notin> set (butlast l)"
    using file_lines_shape [of l False "[]" body] by (simp_all add: lines_of_def)
  have cr: "CR \<notin> set (py_strip l)"
    using sh(1) set_strip_with [of py_isspace l] by (auto simp: py_strip_def)
  have "LF \<notin> set (py_strip l)"
  proof (cases "l \<noteq> [] \<and> last l = LF")
    case True
    then have "l = butlast l @ [LF]"
      by (metis append_butlast_last_id)
    moreover have "py_isspace LF"
      by (simp add: py_isspace_def LF_def)
    ultimately have "py_strip l = strip_with py_isspace (butlast l)"
      by (metis py_strip_def strip_with_snoc)
    then show ?thesis
      using sh(2) set_strip_with [of py_isspace "butlast l"] by auto
  next
    case False
    then have "LF \<notin> set l"
      using sh(2) by (cases l rule: rev_cases) auto
    then show ?thesis
      using set_strip_with [of py_isspace l] by (auto simp: py_strip_def)
  qed
  from this cr show ?thesis
    by simp
qed

lemma split_on_not_empty: "split_on sep cur s \<noteq> []"
  by (induction s arbitrary: cur) auto

lemma split_on_two: "split_on sep cur s = [k, v] \<Longrightarrow> cur @ s = k @ sep # v"
proof (induction s arbitrary: cur)
  case Nil
  then show ?case by simp
next
  case (Cons c s)
  show ?case
  proof (cases "c = sep")
    case True
    with Cons.prems have "k = cur" "split_on sep [] s = [v]"
      by simp_all
    moreover from this have "sep \<notin> set s \<or> sep \<in> set s"
      by blast
    have "s = v"
    proof (cases "sep \<in> set s")
      case False
      then show ?thesis
        using \<open>split_on sep [] s = [v]\<close> by (simp add: split_on_no_sep)
    next
      case True
      then obtain a b where "s = a @ sep # b" "sep \<notin> set a"
        by (meson split_list_first)
      then show ?thesis
        using \<open>split_on sep [] s = [v]\<close> split_on_not_empty [of sep "[]" b]
        by (simp add: split_on_sep)
    qed
    ultimately show ?thesis
      using True by simp
  next
    case False
    with Cons.prems Cons.IH [of "cur @ [c]"] show ?thesis
      by simp
  qed
qed

lemma parse_line_clean_key:
  assumes "parse_line l = Inr (Some (k, n))" and "l \<in> set (lines_of body)"
  shows "clean_key k"
proof -
  from assms(1) obtain v where ne: "py_strip l \<noteq> []" and sp: "py_split TAB (py_strip l) = [k, v]"
    using parse_line_Some by blast
  from sp have eq: "py_strip l = k @ TAB # v"
    using split_on_two [of TAB "[]" "py_strip l" k v] by (simp add: py_split_def)
  from ne have hd: "\<not> py_isspace (hd (py_strip l))"
    using strip_with_ends [of py_isspace l] by (simp add: py_strip_def)
  have tabsp: "py_isspace TAB"
    by (simp add: py_isspace_def TAB_def)
  have k: "k \<noteq> []"
    using hd eq tabsp by (cases k) auto
  then have "\<not> py_isspace (hd k)"
    using hd eq by simp
  moreover have "TAB \<notin> set k"
    using assms(1) by (rule parse_line_key_no_tab)
  moreover have "LF \<notin> set k" "CR \<notin> set k"
    using lines_of_strip [OF assms(2)] eq by auto
  ultimately show ?thesis
    using k by (simp add: clean_key_def)
qed

lemma append_item_keys_old: "k \<in> fst ` set g \<Longrightarrow> map fst (append_item k v g) = map fst g"
  by (induction g) force+

lemma append_item_keys_new: "k \<notin> fst ` set g \<Longrightarrow> map fst (append_item k v g) = map fst g @ [k]"
  by (induction g) force+

lemma group_lines_inv:
  "group_lines g ls = Inr g' \<Longrightarrow> distinct (map fst g) \<Longrightarrow> list_all clean_key (map fst g) \<Longrightarrow>
     set ls \<subseteq> set (lines_of body) \<Longrightarrow>
     distinct (map fst g') \<and> list_all clean_key (map fst g')"
proof (induction ls arbitrary: g)
  case Nil
  then show ?case by simp
next
  case (Cons l ls)
  show ?case
  proof (cases "parse_line l")
    case (Inl e)
    with Cons.prems show ?thesis by simp
  next
    case (Inr r)
    show ?thesis
    proof (cases r)
      case None
      with Inr Cons show ?thesis by simp
    next
      case (Some kn)
      obtain k n where kn: "kn = (k, n)" by (cases kn)
      have ck: "clean_key k"
        using Inr Some kn Cons.prems(4) parse_line_clean_key [of l k n body] by simp
      have "distinct (map fst (append_item k n g)) \<and> list_all clean_key (map fst (append_item k n g))"
      proof (cases "k \<in> fst ` set g")
        case True
        then show ?thesis
          using Cons.prems(2,3) by (simp only: append_item_keys_old)
      next
        case False
        then have "map fst (append_item k n g) = map fst g @ [k]"
          by (rule append_item_keys_new)
        with False show ?thesis
          using Cons.prems(2,3) ck by simp
      qed
      then have "distinct (map fst (append_item k n g))" "list_all clean_key (map fst (append_item k n g))"
        by simp_all
      moreover have "group_lines (append_item k n g) ls = Inr g'"
        using Cons.prems(1) Inr Some kn by simp
      ultimately show ?thesis
        using Cons.IH [of "append_item k n g"] Cons.prems(4) by simp
    qed
  qed
qed

lemma group_files_inv:
  "group_files fs g names = Inr g' \<Longrightarrow> distinct (map fst g) \<Longrightarrow> list_all clean_key (map fst g) \<Longrightarrow>
     distinct (map fst g') \<and> list_all clean_key (map fst g')"
proof (induction names arbitrary: g)
  case Nil
  then show ?case by simp
next
  case (Cons a names)
  from Cons.prems(1) obtain body g1 where rd: "read_file fs a = Inr body"
    and gl: "group_lines g (lines_of body) = Inr g1" and gf: "group_files fs g1 names = Inr g'"
    by (auto split: sum.splits)
  from group_lines_inv [OF gl Cons.prems(2,3)] have "distinct (map fst g1)" "list_all clean_key (map fst g1)"
    by auto
  with Cons.IH [OF gf] show ?case by simp
qed

section \<open>What a completed reduce task leaves behind\<close>

lemma output_path_inj: "output_path i = output_path j \<Longrightarrow> i = j"
  by (simp add: output_path_def py_str_int_inj)

lemma final_path_not_output: "final_path \<noteq> output_path i"
  by (simp add: final_path_def output_path_def)

lemma parse_lines_of_map:
  "map parse_line ls = map (\<lambda>(k, n). Inr (Some (k, n))) pairs \<Longrightarrow> parse_lines acc ls = Inr (acc @ pairs)"
proof (induction pairs arbitrary: ls acc)
  case Nil
  then show ?case by simp
next
  case (Cons p pairs)
  obtain k n where p: "p = (k, n)" by (cases p)
  from Cons.prems obtain l ls' where ls: "ls = l # ls'"
    by (cases ls) auto
  with Cons.prems p have "parse_line l = Inr (Some (k, n))"
    and "map parse_line ls' = map (\<lambda>(k, n). Inr (Some (k, n))) pairs"
    by simp_all
  with Cons.IH [of ls' "acc @ [(k, n)]"] ls p show ?case
    by simp
qed

lemma good_output_entries:
  assumes "good_output fs i"
  shows "\<exists>results. output_entries fs i = Inr results \<and> distinct (map fst results)"
proof -
  from assms obtain results
    where f: "files fs (output_path i) = Some (write_records (map (\<lambda>(k, n). (k, IntV n)) results))"
      and d: "distinct (map fst results)" and c: "list_all (\<lambda>p. clean_key (fst p)) results"
    by (auto simp: good_output_def)
  from c have "\<forall>p \<in> set results. clean_key (fst p)"
    by (simp add: list_all_iff)
  then have "map parse_line (lines_of (write_records (map (\<lambda>(k, n). (k, IntV n)) results)))
      = map (\<lambda>(k, n). Inr (Some (k, n))) results"
    by (rule records_read_back)
  then have "parse_lines [] (lines_of (write_records (map (\<lambda>(k, n). (k, IntV n)) results))) = Inr ([] @ results)"
    by (rule parse_lines_of_map)
  with f d show ?thesis
    by (auto simp: output_entries_def)
qed

lemma good_output_cong:
  "files fs' (output_path i) = files fs (output_path i) \<Longrightarrow> good_output fs' i = good_output fs i"
  by (simp add: good_output_def)

lemma output_entries_cong:
  "files fs' (output_path i) = files fs (output_path i) \<Longrightarrow> output_entries fs' i = output_entries fs i"
  by (simp add: output_entries_def)

lemma entries_or_none_cong:
  "files fs' (output_path i) = files fs (output_path i) \<Longrightarrow> entries_or_none fs' i = entries_or_none fs i"
  by (simp add: entries_or_none_def output_entries_def)

lemma execute_reduce_report:
  assumes "execute_reduce w tid r inputs fs = (fs', resp, Some rep)"
  shows "\<exists>grouped. group_files fs [] inputs = Inr grouped
      \<and> writable fs (output_path r)
      \<and> fs' = fs\<lparr>files := (files fs)(output_path r \<mapsto>
            write_records (map (\<lambda>(key, values). reduce_func w key values) grouped))\<rparr>
      \<and> resp = Completed \<and> rep = (tid, output_path r)"
  using assms
  by (auto simp: execute_reduce_def Let_def write_file_def split: sum.splits if_splits)

lemma execute_reduce_no_report:
  "execute_reduce w tid r inputs fs = (fs', resp, None) \<Longrightarrow> fs' = fs \<and> resp \<noteq> Completed"
  by (auto simp: execute_reduce_def Let_def split: sum.splits)

lemma execute_reduce_good:
  assumes ex: "execute_reduce w tid r inputs fs = (fs', resp, Some rep)"
    and rk: "returns_key (reduce_func w)"
  shows "good_output fs' r"
proof -
  from execute_reduce_report [OF ex] obtain grouped
    where g: "group_files fs [] inputs = Inr grouped"
      and fs': "fs' = fs\<lparr>files := (files fs)(output_path r \<mapsto>
            write_records (map (\<lambda>(key, values). reduce_func w key values) grouped))\<rparr>"
    by blast
  from group_files_inv [OF g] have d: "distinct (map fst grouped)" and c: "list_all clean_key (map fst grouped)"
    by simp_all
  define int_of where "int_of = (\<lambda>v. case v of IntV n \<Rightarrow> n | StrV s \<Rightarrow> (0 :: int))"
  define results where "results = map (\<lambda>(k, vs). (k, int_of (snd (reduce_func w k vs)))) grouped"
  have rf: "\<And>k vs. reduce_func w k vs = (k, IntV (int_of (snd (reduce_func w k vs))))"
  proof -
    fix k vs
    from rk obtain n where "reduce_func w k vs = (k, IntV n)"
      unfolding returns_key_def by blast
    then show "reduce_func w k vs = (k, IntV (int_of (snd (reduce_func w k vs))))"
      by (simp add: int_of_def)
  qed
  have "map (\<lambda>(k, n). (k, IntV n)) results = map (\<lambda>(key, values). reduce_func w key values) grouped"
    unfolding results_def using rf by (simp add: case_prod_beta comp_def)
  moreover have "map fst results = map fst grouped"
    by (simp add: results_def case_prod_beta comp_def)
  moreover from this c have "list_all (\<lambda>p. clean_key (fst p)) results"
    by (metis list_all_iff list.pred_map comp_def list_all_iff)
  ultimately show ?thesis
    using fs' d by (auto simp: good_output_def intro!: exI [of _ results])
qed

lemma worker_for_mem: "worker_for ws i = Inr w \<Longrightarrow> w \<in> set ws"
proof -
  assume h: "worker_for ws i = Inr w"
  then have ne: "ws \<noteq> []" and w: "w = ws ! nat (i mod int (length ws))"
    by (auto simp: worker_for_def split: if_splits)
  from ne have "0 \<le> i mod int (length ws)" "i mod int (length ws) < int (length ws)"
    by simp_all
  then have "nat (i mod int (length ws)) < length ws"
    by linarith
  with w show ?thesis
    by simp
qed

lemma reduce_complete_fields:
  "reduce_complete t out m fs = (m1, fs2, merged) \<Longrightarrow>
     completed_reduces m1 = completed_reduces m + 1 \<and> num_reduce_tasks m1 = num_reduce_tasks m
     \<and> intermediate_files m1 = intermediate_files m"
  by (auto simp: reduce_complete_def Let_def split: if_splits sum.splits prod.splits)

lemma reduce_complete_no_merge:
  "reduce_complete t out m fs = (m1, fs2, merged) \<Longrightarrow>
     completed_reduces m + 1 \<noteq> num_reduce_tasks m \<Longrightarrow> fs2 = fs \<and> merged = None"
  by (auto simp: reduce_complete_def Let_def split: if_splits sum.splits prod.splits)

lemma merge_results_Inr:
  assumes "merge_results m fs = Inr (fs', final)"
  shows "final = sort_by_count (concat (map (entries_or_none fs) (py_range (num_reduce_tasks m))))
     \<and> (\<forall>name. name \<noteq> final_path \<longrightarrow> files fs' name = files fs name)"
  using assms
  by (auto simp: merge_results_def read_outputs_char write_file_def Let_def split: sum.splits if_splits)

lemma reduce_complete_merge:
  "reduce_complete t out m fs = (m1, fs2, Some (Inr final)) \<Longrightarrow>
     completed_reduces m + 1 = num_reduce_tasks m
     \<and> final = sort_by_count (concat (map (entries_or_none fs) (py_range (num_reduce_tasks m))))
     \<and> (\<forall>name. name \<noteq> final_path \<longrightarrow> files fs2 name = files fs name)"
  using merge_results_Inr [of "m\<lparr>completed_reduces := completed_reduces m + 1\<rparr>" fs fs2 final]
  by (auto simp: reduce_complete_def Let_def split: if_splits sum.splits prod.splits)

section \<open>The reduce phase up to the merge\<close>

lemma py_range_distinct: "distinct (py_range n)"
  by (simp add: py_range_def distinct_map)

lemma py_range_length: "length (py_range n) = nat n"
  by (simp add: py_range_def)

lemma reduce_phase_done:
  assumes "reduce_phase ws ids m fs = Inr (m', fs', Some (Inr final))"
    and "\<forall>w \<in> set ws. returns_key (reduce_func w)"
    and "py_range (num_reduce_tasks m) = prefix @ ids"
    and "completed_reduces m \<le> int (length prefix)"
    and "completed_reduces m = int (length prefix) \<longrightarrow> (\<forall>i \<in> set prefix. good_output fs i)"
  shows "(\<forall>i \<in> set (py_range (num_reduce_tasks m)). good_output fs' i)
     \<and> final = sort_by_count (concat (map (entries_or_none fs') (py_range (num_reduce_tasks m))))"
  using assms
proof (induction ids arbitrary: m fs prefix)
  case Nil
  then show ?case by simp
next
  case (Cons r ids)
  let ?R = "num_reduce_tasks m"
  from Cons.prems(1) obtain w where wf: "worker_for ws r = Inr w"
    by (auto split: sum.splits)
  then have rk: "returns_key (reduce_func w)"
    using Cons.prems(2) worker_for_mem by blast
  define m0 where "m0 = m\<lparr>intermediate_files := extend_item r [] (intermediate_files m)\<rparr>"
  define inputs where "inputs = lookup_list (intermediate_files m0) r"
  have m0: "num_reduce_tasks m0 = ?R" "completed_reduces m0 = completed_reduces m"
    by (simp_all add: m0_def)
  obtain fs1 resp rep
    where ex: "execute_reduce w (''reduce-'' @ py_str_int r) r inputs fs = (fs1, resp, rep)"
    by (cases "execute_reduce w (''reduce-'' @ py_str_int r) r inputs fs")
  have range: "py_range ?R = (prefix @ [r]) @ ids"
    using Cons.prems(3) by simp
  have r_new: "r \<notin> set prefix"
    using py_range_distinct [of ?R] Cons.prems(3) by auto
  have len: "int (length prefix) + 1 + int (length ids) = ?R"
  proof -
    have "length (py_range ?R) = length prefix + 1 + length ids"
      using Cons.prems(3) by simp
    then have "nat ?R = length prefix + 1 + length ids"
      by (simp add: py_range_length)
    then show ?thesis by linarith
  qed
  show ?case
  proof (cases rep)
    case None
    with ex have same: "fs1 = fs"
      using execute_reduce_no_report by blast
    have rp: "reduce_phase ws ids m0 fs = Inr (m', fs', Some (Inr final))"
      using Cons.prems(1) wf ex None same by (simp add: m0_def inputs_def Let_def)
    have "completed_reduces m0 \<le> int (length (prefix @ [r]))"
      using Cons.prems(4) m0 by simp
    moreover have "completed_reduces m0 = int (length (prefix @ [r]))
        \<longrightarrow> (\<forall>i \<in> set (prefix @ [r]). good_output fs i)"
      using Cons.prems(4) m0 by simp
    ultimately show ?thesis
      using Cons.IH [OF rp Cons.prems(2), of "prefix @ [r]"] range m0 by simp
  next
    case (Some tr)
    obtain tid out where tr: "tr = (tid, out)" by (cases tr)
    from ex Some have good_r: "good_output fs1 r"
      using execute_reduce_good rk by blast
    from ex Some obtain body where fs1: "fs1 = fs\<lparr>files := (files fs)(output_path r \<mapsto> body)\<rparr>"
      using execute_reduce_report by blast
    have other: "\<And>i. i \<noteq> r \<Longrightarrow> files fs1 (output_path i) = files fs (output_path i)"
      using fs1 output_path_inj by auto
    obtain m1 fs2 merged where rc: "reduce_complete tid out m0 fs1 = (m1, fs2, merged)"
      by (cases "reduce_complete tid out m0 fs1")
    from reduce_complete_fields [OF rc] m0
    have m1: "completed_reduces m1 = completed_reduces m + 1" "num_reduce_tasks m1 = ?R"
      by simp_all
    from Cons.prems(1) wf ex Some tr rc obtain merged2
      where rp: "reduce_phase ws ids m1 fs2 = Inr (m', fs', merged2)"
        and comb: "(case merged of None \<Rightarrow> merged2 | Some x \<Rightarrow> Some x) = Some (Inr final)"
      by (auto simp: m0_def inputs_def Let_def split: sum.splits)
    have good_prefix: "completed_reduces m = int (length prefix) \<Longrightarrow>
        \<forall>i \<in> set (prefix @ [r]). good_output fs1 i"
    proof -
      assume "completed_reduces m = int (length prefix)"
      with Cons.prems(5) have pre: "\<forall>i \<in> set prefix. good_output fs i"
        by simp
      have "\<forall>i \<in> set prefix. good_output fs1 i"
      proof
        fix i
        assume i: "i \<in> set prefix"
        with r_new have "i \<noteq> r" by blast
        then have "files fs1 (output_path i) = files fs (output_path i)"
          by (rule other)
        then have "good_output fs1 i = good_output fs i"
          by (rule good_output_cong)
        with pre i show "good_output fs1 i" by simp
      qed
      with good_r show ?thesis by simp
    qed
    show ?thesis
    proof (cases "completed_reduces m + 1 = ?R")
      case False
      with reduce_complete_no_merge [OF rc] m0 have nm: "fs2 = fs1" "merged = None"
        by simp_all
      with comb rp have rp': "reduce_phase ws ids m1 fs1 = Inr (m', fs', Some (Inr final))"
        by simp
      have "completed_reduces m1 \<le> int (length (prefix @ [r]))"
        using Cons.prems(4) m1 by simp
      moreover have "completed_reduces m1 = int (length (prefix @ [r]))
          \<longrightarrow> (\<forall>i \<in> set (prefix @ [r]). good_output fs1 i)"
        using good_prefix m1 by simp
      ultimately show ?thesis
        using Cons.IH [OF rp' Cons.prems(2), of "prefix @ [r]"] range m1 by simp
    next
      case True
      with len Cons.prems(4) have "int (length ids) = 0" and full: "completed_reduces m = int (length prefix)"
        by linarith+
      then have ids: "ids = []"
        by simp
      from rp ids have last_step: "m' = m1" "fs' = fs2" "merged2 = None"
        by simp_all
      with comb have mg: "merged = Some (Inr final)"
        by (cases merged) simp_all
      from reduce_complete_merge [OF rc [unfolded mg]] m0
      have fin: "final = sort_by_count (concat (map (entries_or_none fs1) (py_range ?R)))"
        and keep: "\<And>name. name \<noteq> final_path \<Longrightarrow> files fs2 name = files fs1 name"
        by simp_all
      have same: "\<And>i. files fs2 (output_path i) = files fs1 (output_path i)"
        by (rule keep) (simp add: final_path_not_output [symmetric])
      have all_good: "\<forall>i \<in> set (py_range ?R). good_output fs1 i"
        using good_prefix [OF full] range ids by simp
      have g2: "\<And>i. good_output fs2 i = good_output fs1 i"
        using same by (rule good_output_cong)
      have "\<And>i. entries_or_none fs2 i = entries_or_none fs1 i"
        using same by (rule entries_or_none_cong)
      then have e2: "entries_or_none fs2 = entries_or_none fs1"
        by (rule ext)
      have "\<forall>i \<in> set (py_range ?R). good_output fs2 i"
        using all_good by (simp only: g2)
      then show ?thesis
        using fin last_step by (simp add: e2)
    qed
  qed
qed

section \<open>The final result of a completed job\<close>

lemma map_complete_other_fields:
  "map_complete t im m = (m', b) \<Longrightarrow>
     num_reduce_tasks m' = num_reduce_tasks m \<and> completed_reduces m' = completed_reduces m"
  by (auto simp: map_complete_def Let_def)

lemma map_phase_fields:
  "map_phase ws tasks m fs = Inr (m', fs', started) \<Longrightarrow>
     num_reduce_tasks m' = num_reduce_tasks m \<and> completed_reduces m' = completed_reduces m"
proof (induction tasks arbitrary: m fs started)
  case Nil
  then show ?case by simp
next
  case (Cons task tasks)
  obtain i f where task: "task = (i, f)" by (cases task)
  from Cons.prems task obtain w where wf: "worker_for ws i = Inr w"
    by (auto split: sum.splits)
  obtain fs1 resp rep
    where ex: "execute_map w (''map-'' @ py_str_int i) f (num_reduce_tasks m) i fs = (fs1, resp, rep)"
    by (cases "execute_map w (''map-'' @ py_str_int i) f (num_reduce_tasks m) i fs")
  show ?case
  proof (cases rep)
    case None
    with Cons.prems task wf ex have "map_phase ws tasks m fs1 = Inr (m', fs', started)"
      by simp
    then show ?thesis by (rule Cons.IH)
  next
    case (Some tr)
    obtain tid im where tr: "tr = (tid, im)" by (cases tr)
    obtain m1 b where mc: "map_complete tid im m = (m1, b)" by (cases "map_complete tid im m")
    from Cons.prems task wf ex Some tr mc obtain st
      where "map_phase ws tasks m1 fs1 = Inr (m', fs', st)"
      by (auto split: sum.splits)
    from Cons.IH [OF this] map_complete_other_fields [OF mc] show ?thesis
      by simp
  qed
qed

lemma register_all_fields:
  "num_reduce_tasks (register_all ws m) = num_reduce_tasks m
   \<and> completed_reduces (register_all ws m) = completed_reduces m"
  unfolding register_all_def
  by (induction ws arbitrary: m) (simp_all add: register_worker_def)

lemma sort_by_count_sorted: "sorted_wrt (\<lambda>a b. snd b \<le> snd a) (sort_by_count xs)"
proof -
  have "sorted (map (\<lambda>x. - snd x) (sort_key (\<lambda>x. - snd x) xs))"
    by (rule sorted_sort_key)
  then show ?thesis
    by (simp add: sort_by_count_def sorted_map)
qed

lemma length_sort_by_count: "length (sort_by_count xs) = length xs"
  by (simp add: sort_by_count_def)

lemma good_output_count:
  "good_output fs i \<Longrightarrow> length (entries_or_none fs i) = card (fst ` set (entries_or_none fs i))"
proof -
  assume "good_output fs i"
  then obtain results where oe: "output_entries fs i = Inr results" and d: "distinct (map fst results)"
    using good_output_entries by blast
  from d have "card (set (map fst results)) = length (map fst results)"
    by (rule distinct_card)
  with oe show ?thesis
    by (simp add: entries_or_none_def)
qed

lemma run_job_done:
  assumes "run_job ws R input_files fs = Inr (m, fs', Done final)"
  shows "\<exists>m1 fs1. reduce_phase ws (py_range R) m1 fs1 = Inr (m, fs', Some (Inr final))
      \<and> num_reduce_tasks m1 = R \<and> completed_reduces m1 = 0"
proof -
  define m0 where "m0 = (register_all ws (init_master R))\<lparr>map_tasks := input_files\<rparr>"
  have m0: "num_reduce_tasks m0 = R" "completed_reduces m0 = 0"
    using register_all_fields [of ws "init_master R"] by (simp_all add: m0_def init_master_def)
  from assms obtain m1 fs1 started
    where mp: "map_phase ws (enumerate_files input_files) m0 fs = Inr (m1, fs1, started)"
    by (auto simp: run_job_def m0_def Let_def split: sum.splits)
  from map_phase_fields [OF mp] m0 have m1: "num_reduce_tasks m1 = R" "completed_reduces m1 = 0"
    by simp_all
  from assms mp m1 have "reduce_phase ws (py_range R) m1 fs1 = Inr (m, fs', Some (Inr final))"
    by (auto simp: run_job_def m0_def Let_def split: sum.splits if_splits option.splits)
  with m1 show ?thesis by blast
qed

text \<open>
  What holds of every job that ends with the merge done, when the reduce functions of the
  workers return the key they were given with an integer (as the word-count function
  does): the final result is ordered by non-increasing aggregate value, it is the stable
  sort of the output files' entries taken in reducer order, and its length is the number
  of distinct keys of each output file summed over the reducers.
\<close>

lemma final_results_sorted_and_counted:
  assumes "run_job ws R input_files fs = Inr (m, fs', Done final)"
    and "\<forall>w \<in> set ws. returns_key (reduce_func w)"
  shows "sorted_wrt (\<lambda>a b. snd b \<le> snd a) final
     \<and> length final = (\<Sum>i\<leftarrow>py_range R. card (fst ` set (entries_or_none fs' i)))
     \<and> final = sort_by_count (concat (map (entries_or_none fs') (py_range R)))"
proof -
  from run_job_done [OF assms(1)] obtain m1 fs1
    where rp: "reduce_phase ws (py_range R) m1 fs1 = Inr (m, fs', Some (Inr final))"
      and m1: "num_reduce_tasks m1 = R" "completed_reduces m1 = 0"
    by blast
  have "(\<forall>i \<in> set (py_range (num_reduce_tasks m1)). good_output fs' i)
     \<and> final = sort_by_count (concat (map (entries_or_none fs') (py_range (num_reduce_tasks m1))))"
    using rp assms(2) by (rule reduce_phase_done [where prefix = "[]"]) (simp_all add: m1)
  then have good: "\<forall>i \<in> set (py_range R). good_output fs' i"
    and fin: "final = sort_by_count (concat (map (entries_or_none fs') (py_range R)))"
    by (simp_all add: m1)
  have "length final = length (concat (map (entries_or_none fs') (py_range R)))"
    by (simp add: fin length_sort_by_count)
  also have "\<dots> = (\<Sum>i\<leftarrow>py_range R. length (entries_or_none fs' i))"
    by (simp add: length_concat comp_def)
  also have "\<dots> = (\<Sum>i\<leftarrow>py_range R. card (fst ` set (entries_or_none fs' i)))"
    using good by (intro arg_cong [where f = sum_list] map_cong) (auto simp: good_output_count)
  finally have "length final = (\<Sum>i\<leftarrow>py_range R. card (fst ` set (entries_or_none fs' i)))" .
  moreover have "sorted_wrt (\<lambda>a b. snd b \<le> snd a) final"
    by (simp add: fin sort_by_count_sorted)
  ultimately show ?thesis
    using fin by simp
qed

section \<open>A job on two workers with different hash secrets\<close>

lemma read_file_fs_of:
  "read_file (fs_of es) p = (case map_of es p of None \<Rightarrow> Inl FileNotFoundError | Some t \<Rightarrow> Inr t)"
  by (simp add: read_file_def fs_of_def)

lemma write_file_fs_of: "write_file (fs_of es) p t = Inr (fs_of ((p, t) # es))"
  by (simp add: write_file_def fs_of_def)

lemma enumerate_two: "enumerate_files [a, b] = [(0, a), (1, b)]"
  by (simp add: enumerate_files_def py_range_def upt_rec)

lemma worker_for_two:
  "worker_for [a, b] 0 = Inr a" "worker_for [a, b] 1 = Inr b"
  "worker_for [a, b] 2 = Inr a" "worker_for [a, b] 3 = Inr b"
  by (simp_all add: worker_for_def)

lemma py_range_4: "py_range 4 = [0, 1, 2, 3]"
  by (simp add: py_range_def upt_rec)

lemma execute_reduce_no_files:
  "execute_reduce w tid r [] (fs_of es)
     = (fs_of ((output_path r, write_records []) # es), Completed, Some (tid, output_path r))"
  by (simp add: execute_reduce_def write_file_fs_of Let_def)

lemma map0: "execute_map worker0 tid ''data/chunks/chunk-0.txt'' 4 0 fs_two_chunks
  = (fs_of [(partition_path 0 1, write_records [(''the'', IntV 1)]),
            (''data/chunks/chunk-0.txt'', ''the''), (''data/chunks/chunk-1.txt'', ''the'')],
     Completed, Some (tid, [(1, [partition_path 0 1])]))"
  by (simp add: execute_map_def fs_two_chunks_def read_file_fs_of worker0_def create_worker_def
      wc_map_func_the reducer_of_zero_the write_file_fs_of Let_def)

lemma map1: "execute_map worker1 tid ''data/chunks/chunk-1.txt'' 4 1
     (fs_of [(partition_path 0 1, write_records [(''the'', IntV 1)]),
            (''data/chunks/chunk-0.txt'', ''the''), (''data/chunks/chunk-1.txt'', ''the'')])
  = (fs_of [(partition_path 1 3, write_records [(''the'', IntV 1)]),
            (partition_path 0 1, write_records [(''the'', IntV 1)]),
            (''data/chunks/chunk-0.txt'', ''the''), (''data/chunks/chunk-1.txt'', ''the'')],
     Completed, Some (tid, [(3, [partition_path 1 3])]))"
proof -
  have "read_file (fs_of [(partition_path 0 1, write_records [(''the'', IntV 1)]),
            (''data/chunks/chunk-0.txt'', ''the''), (''data/chunks/chunk-1.txt'', ''the'')])
          ''data/chunks/chunk-1.txt'' = Inr ''the''"
    by code_simp
  then show ?thesis
    by (simp add: execute_map_def worker1_def create_worker_def
        wc_map_func_the reducer_of_one_the write_file_fs_of Let_def)
qed

lemma two_worker_map_phase:
  "\<exists>m1. map_phase [worker0, worker1] (enumerate_files [''data/chunks/chunk-0.txt'', ''data/chunks/chunk-1.txt''])
      ((register_all [worker0, worker1] (init_master 4))
         \<lparr>map_tasks := [''data/chunks/chunk-0.txt'', ''data/chunks/chunk-1.txt'']\<rparr>) fs_two_chunks
    = Inr (m1, fs_of [(partition_path 1 3, write_records [(''the'', IntV 1)]),
            (partition_path 0 1, write_records [(''the'', IntV 1)]),
            (''data/chunks/chunk-0.txt'', ''the''), (''data/chunks/chunk-1.txt'', ''the'')], True)
    \<and> num_reduce_tasks m1 = 4 \<and> completed_reduces m1 = 0
    \<and> intermediate_files m1 = [(1, [partition_path 0 1]), (3, [partition_path 1 3])]"
  by (simp add: enumerate_two worker_for_two register_all_def register_worker_def init_master_def
      map0 map1 map_complete_def store_intermediate_def Let_def)

lemma reduce1: "execute_reduce worker1 tid 1 [partition_path 0 1]
     (fs_of [(output_path 0, write_records []),
            (partition_path 1 3, write_records [(''the'', IntV 1)]),
            (partition_path 0 1, write_records [(''the'', IntV 1)]),
            (''data/chunks/chunk-0.txt'', ''the''), (''data/chunks/chunk-1.txt'', ''the'')])
  = (fs_of [(output_path 1, write_records [(''the'', IntV 1)]),
            (output_path 0, write_records []),
            (partition_path 1 3, write_records [(''the'', IntV 1)]),
            (partition_path 0 1, write_records [(''the'', IntV 1)]),
            (''data/chunks/chunk-0.txt'', ''the''), (''data/chunks/chunk-1.txt'', ''the'')],
     Completed, Some (tid, output_path 1))"
proof -
  have "group_files (fs_of [(output_path 0, write_records []),
            (partition_path 1 3, write_records [(''the'', IntV 1)]),
            (partition_path 0 1, write_records [(''the'', IntV 1)]),
            (''data/chunks/chunk-0.txt'', ''the''), (''data/chunks/chunk-1.txt'', ''the'')])
          [] [partition_path 0 1] = Inr [(''the'', [1])]"
    by code_simp
  then show ?thesis
    by (simp add: execute_reduce_def worker1_def create_worker_def wc_reduce_func_def
        write_file_fs_of Let_def)
qed

lemma reduce3: "execute_reduce worker1 tid 3 [partition_path 1 3]
     (fs_of [(output_path 2, write_records []),
            (output_path 1, write_records [(''the'', IntV 1)]),
            (output_path 0, write_records []),
            (partition_path 1 3, write_records [(''the'', IntV 1)]),
            (partition_path 0 1, write_records [(''the'', IntV 1)]),
            (''data/chunks/chunk-0.txt'', ''the''), (''data/chunks/chunk-1.txt'', ''the'')])
  = (fs_of [(output_path 3, write_records [(''the'', IntV 1)]),
            (output_path 2, write_records []),
            (output_path 1, write_records [(''the'', IntV 1)]),
            (output_path 0, write_records []),
            (partition_path 1 3, write_records [(''the'', IntV 1)]),
            (partition_path 0 1, write_records [(''the'', IntV 1)]),
            (''data/chunks/chunk-0.txt'', ''the''), (''data/chunks/chunk-1.txt'', ''the'')],
     Completed, Some (tid, output_path 3))"
proof -
  have "group_files (fs_of [(output_path 2, write_records []),
            (output_path 1, write_records [(''the'', IntV 1)]),
            (output_path 0, write_records []),
            (partition_path 1 3, write_records [(''the'', IntV 1)]),
            (partition_path 0 1, write_records [(''the'', IntV 1)]),
            (''data/chunks/chunk-0.txt'', ''the''), (''data/chunks/chunk-1.txt'', ''the'')])
          [] [partition_path 1 3] = Inr [(''the'', [1])]"
    by code_simp
  then show ?thesis
    by (simp add: execute_reduce_def worker1_def create_worker_def wc_reduce_func_def
        write_file_fs_of Let_def)
qed

lemma merge_two_chunks:
  assumes "num_reduce_tasks m = 4"
  shows "merge_results m
     (fs_of [(output_path 3, write_records [(''the'', IntV 1)]),
            (output_path 2, write_records []),
            (output_path 1, write_records [(''the'', IntV 1)]),
            (output_path 0, write_records []),
            (partition_path 1 3, write_records [(''the'', IntV 1)]),
            (partition_path 0 1, write_records [(''the'', IntV 1)]),
            (''data/chunks/chunk-0.txt'', ''the''), (''data/chunks/chunk-1.txt'', ''the'')])
   = Inr (fs_two_chunks_done, [(''the'', 1), (''the'', 1)])"
proof -
  let ?fs = "fs_of [(output_path 3, write_records [(''the'', IntV 1)]),
            (output_path 2, write_records []),
            (output_path 1, write_records [(''the'', IntV 1)]),
            (output_path 0, write_records []),
            (partition_path 1 3, write_records [(''the'', IntV 1)]),
            (partition_path 0 1, write_records [(''the'', IntV 1)]),
            (''data/chunks/chunk-0.txt'', ''the''), (''data/chunks/chunk-1.txt'', ''the'')]"
  have w: "writable ?fs final_path"
    by (simp add: fs_of_def)
  have e: "output_entries ?fs 0 = Inr []" "output_entries ?fs 1 = Inr [(''the'', 1)]"
    "output_entries ?fs 2 = Inr []" "output_entries ?fs 3 = Inr [(''the'', 1)]"
    by code_simp+
  have s: "sort_by_count [(''the'', 1), (''the'', 1)] = [(''the'', 1), (''the'', 1)]"
    by (simp add: sort_by_count_def)
  have "?fs\<lparr>files := (files ?fs)(final_path \<mapsto> final_text [(''the'', 1), (''the'', 1)])\<rparr>
      = fs_two_chunks_done"
    by (simp add: fs_of_def fs_two_chunks_done_def final_text_def)
  with merge_results_char [OF w, of m] assms show ?thesis
    by (simp add: py_range_4 e entries_or_none_def s)
qed

lemma lookup_extend_empty: "lookup_list (extend_item r [] al) k = lookup_list al k"
  by (induction al) auto

lemma reduce_phase_step:
  assumes "worker_for ws r = Inr w"
    and "execute_reduce w (''reduce-'' @ py_str_int r) r (lookup_list (intermediate_files m) r) fs
      = (fs1, resp, Some (tid, out))"
    and "completed_reduces m + 1 \<noteq> num_reduce_tasks m"
  shows "reduce_phase ws (r # rest) m fs
     = reduce_phase ws rest
         (m\<lparr>intermediate_files := extend_item r [] (intermediate_files m),
            completed_reduces := completed_reduces m + 1\<rparr>) fs1"
  using assms
  by (cases "reduce_phase ws rest
         (m\<lparr>intermediate_files := extend_item r [] (intermediate_files m),
            completed_reduces := completed_reduces m + 1\<rparr>) fs1")
    (auto simp: Let_def lookup_extend_empty reduce_complete_def)

lemma reduce_phase_last:
  assumes "worker_for ws r = Inr w"
    and "execute_reduce w (''reduce-'' @ py_str_int r) r (lookup_list (intermediate_files m) r) fs
      = (fs1, resp, Some (tid, out))"
    and "completed_reduces m + 1 = num_reduce_tasks m"
    and "merge_results
           (m\<lparr>intermediate_files := extend_item r [] (intermediate_files m),
              completed_reduces := completed_reduces m + 1\<rparr>) fs1 = Inr (fs2, final)"
  shows "\<exists>m2. reduce_phase ws [r] m fs = Inr (m2, fs2, Some (Inr final))"
  using assms
  by (simp add: Let_def lookup_extend_empty reduce_complete_def)

lemma two_worker_reduce_phase:
  assumes m1: "num_reduce_tasks m1 = 4" "completed_reduces m1 = 0"
    "intermediate_files m1 = [(1, [partition_path 0 1]), (3, [partition_path 1 3])]"
  shows "\<exists>m2. reduce_phase [worker0, worker1] (py_range 4) m1
     (fs_of [(partition_path 1 3, write_records [(''the'', IntV 1)]),
            (partition_path 0 1, write_records [(''the'', IntV 1)]),
            (''data/chunks/chunk-0.txt'', ''the''), (''data/chunks/chunk-1.txt'', ''the'')])
   = Inr (m2, fs_two_chunks_done, Some (Inr [(''the'', 1), (''the'', 1)]))"
proof -
  let ?ws = "[worker0, worker1]"
  define mA where "mA = m1\<lparr>intermediate_files := extend_item 0 [] (intermediate_files m1),
      completed_reduces := completed_reduces m1 + 1\<rparr>"
  define mB where "mB = mA\<lparr>intermediate_files := extend_item 1 [] (intermediate_files mA),
      completed_reduces := completed_reduces mA + 1\<rparr>"
  define mC where "mC = mB\<lparr>intermediate_files := extend_item 2 [] (intermediate_files mB),
      completed_reduces := completed_reduces mB + 1\<rparr>"
  have mA: "num_reduce_tasks mA = 4" "completed_reduces mA = 1"
    "lookup_list (intermediate_files mA) 1 = [partition_path 0 1]"
    by (simp_all add: mA_def m1)
  have mB: "num_reduce_tasks mB = 4" "completed_reduces mB = 2"
    "lookup_list (intermediate_files mB) 2 = []"
    by (simp_all add: mB_def mA_def m1)
  have mC: "num_reduce_tasks mC = 4" "completed_reduces mC = 3"
    "lookup_list (intermediate_files mC) 3 = [partition_path 1 3]"
    by (simp_all add: mC_def mB_def mA_def m1)
  have l0: "lookup_list (intermediate_files m1) 0 = []"
    by (simp add: m1)
  have "reduce_phase ?ws (py_range 4) m1
     (fs_of [(partition_path 1 3, write_records [(''the'', IntV 1)]),
            (partition_path 0 1, write_records [(''the'', IntV 1)]),
            (''data/chunks/chunk-0.txt'', ''the''), (''data/chunks/chunk-1.txt'', ''the'')])
    = reduce_phase ?ws [1, 2, 3] mA
     (fs_of [(output_path 0, write_records []),
            (partition_path 1 3, write_records [(''the'', IntV 1)]),
            (partition_path 0 1, write_records [(''the'', IntV 1)]),
            (''data/chunks/chunk-0.txt'', ''the''), (''data/chunks/chunk-1.txt'', ''the'')])"
    unfolding py_range_4 mA_def
    by (rule reduce_phase_step [OF worker_for_two(1)]) (simp_all add: l0 m1 execute_reduce_no_files)
  also have "\<dots> = reduce_phase ?ws [2, 3] mB
     (fs_of [(output_path 1, write_records [(''the'', IntV 1)]),
            (output_path 0, write_records []),
            (partition_path 1 3, write_records [(''the'', IntV 1)]),
            (partition_path 0 1, write_records [(''the'', IntV 1)]),
            (''data/chunks/chunk-0.txt'', ''the''), (''data/chunks/chunk-1.txt'', ''the'')])"
    unfolding mB_def
    by (rule reduce_phase_step [OF worker_for_two(2)]) (simp_all add: mA reduce1)
  also have "\<dots> = reduce_phase ?ws [3] mC
     (fs_of [(output_path 2, write_records []),
            (output_path 1, write_records [(''the'', IntV 1)]),
            (output_path 0, write_records []),
            (partition_path 1 3, write_records [(''the'', IntV 1)]),
            (partition_path 0 1, write_records [(''the'', IntV 1)]),
            (''data/chunks/chunk-0.txt'', ''the''), (''data/chunks/chunk-1.txt'', ''the'')])"
    unfolding mC_def
    by (rule reduce_phase_step [OF worker_for_two(3)]) (simp_all add: mB execute_reduce_no_files)
  finally have chain: "reduce_phase ?ws (py_range 4) m1
     (fs_of [(partition_path 1 3, write_records [(''the'', IntV 1)]),
            (partition_path 0 1, write_records [(''the'', IntV 1)]),
            (''data/chunks/chunk-0.txt'', ''the''), (''data/chunks/chunk-1.txt'', ''the'')])
    = reduce_phase ?ws [3] mC
     (fs_of [(output_path 2, write_records []),
            (output_path 1, write_records [(''the'', IntV 1)]),
            (output_path 0, write_records []),
            (partition_path 1 3, write_records [(''the'', IntV 1)]),
            (partition_path 0 1, write_records [(''the'', IntV 1)]),
            (''data/chunks/chunk-0.txt'', ''the''), (''data/chunks/chunk-1.txt'', ''the'')])" .
  have "\<exists>m2. reduce_phase ?ws [3] mC
     (fs_of [(output_path 2, write_records []),
            (output_path 1, write_records [(''the'', IntV 1)]),
            (output_path 0, write_records []),
            (partition_path 1 3, write_records [(''the'', IntV 1)]),
            (partition_path 0 1, write_records [(''the'', IntV 1)]),
            (''data/chunks/chunk-0.txt'', ''the''), (''data/chunks/chunk-1.txt'', ''the'')])
    = Inr (m2, fs_two_chunks_done, Some (Inr [(''the'', 1), (''the'', 1)]))"
  proof (rule reduce_phase_last [OF worker_for_two(4)])
    show "execute_reduce worker1 (''reduce-'' @ py_str_int 3) 3 (lookup_list (intermediate_files mC) 3)
        (fs_of [(output_path 2, write_records []),
            (output_path 1, write_records [(''the'', IntV 1)]),
            (output_path 0, write_records []),
            (partition_path 1 3, write_records [(''the'', IntV 1)]),
            (partition_path 0 1, write_records [(''the'', IntV 1)]),
            (''data/chunks/chunk-0.txt'', ''the''), (''data/chunks/chunk-1.txt'', ''the'')])
      = (fs_of [(output_path 3, write_records [(''the'', IntV 1)]),
            (output_path 2, write_records []),
            (output_path 1, write_records [(''the'', IntV 1)]),
            (output_path 0, write_records []),
            (partition_path 1 3, write_records [(''the'', IntV 1)]),
            (partition_path 0 1, write_records [(''the'', IntV 1)]),
            (''data/chunks/chunk-0.txt'', ''the''), (''data/chunks/chunk-1.txt'', ''the'')],
         Completed, Some (''reduce-'' @ py_str_int 3, output_path 3))"
      unfolding mC(3) by (rule reduce3)
    show "completed_reduces mC + 1 = num_reduce_tasks mC"
      by (simp add: mC)
    show "merge_results
        (mC\<lparr>intermediate_files := extend_item 3 [] (intermediate_files mC),
            completed_reduces := completed_reduces mC + 1\<rparr>)
        (fs_of [(output_path 3, write_records [(''the'', IntV 1)]),
            (output_path 2, write_records []),
            (output_path 1, write_records [(''the'', IntV 1)]),
            (output_path 0, write_records []),
            (partition_path 1 3, write_records [(''the'', IntV 1)]),
            (partition_path 0 1, write_records [(''the'', IntV 1)]),
            (''data/chunks/chunk-0.txt'', ''the''), (''data/chunks/chunk-1.txt'', ''the'')])
      = Inr (fs_two_chunks_done, [(''the'', 1), (''the'', 1)])"
      by (rule merge_two_chunks) (simp add: mC)
  qed
  with chain show ?thesis
    by simp
qed

lemma run_job_from_phases:
  assumes "map_phase ws (enumerate_files input_files)
      ((register_all ws (init_master R))\<lparr>map_tasks := input_files\<rparr>) fs = Inr (m1, fs1, True)"
    and "reduce_phase ws (py_range (num_reduce_tasks m1)) m1 fs1 = Inr (m2, fs2, Some (Inr final))"
  shows "run_job ws R input_files fs = Inr (m2, fs2, Done final)"
  using assms by (simp add: run_job_def Let_def)

lemma two_worker_job:
  "\<exists>m. run_job [worker0, worker1] 4 [''data/chunks/chunk-0.txt'', ''data/chunks/chunk-1.txt''] fs_two_chunks
     = Inr (m, fs_two_chunks_done, Done [(''the'', 1), (''the'', 1)])"
proof -
  from two_worker_map_phase obtain m1
    where mp: "map_phase [worker0, worker1]
        (enumerate_files [''data/chunks/chunk-0.txt'', ''data/chunks/chunk-1.txt''])
        ((register_all [worker0, worker1] (init_master 4))
           \<lparr>map_tasks := [''data/chunks/chunk-0.txt'', ''data/chunks/chunk-1.txt'']\<rparr>) fs_two_chunks
      = Inr (m1, fs_of [(partition_path 1 3, write_records [(''the'', IntV 1)]),
            (partition_path 0 1, write_records [(''the'', IntV 1)]),
            (''data/chunks/chunk-0.txt'', ''the''), (''data/chunks/chunk-1.txt'', ''the'')], True)"
      and m1: "num_reduce_tasks m1 = 4" "completed_reduces m1 = 0"
        "intermediate_files m1 = [(1, [partition_path 0 1]), (3, [partition_path 1 3])]"
    by blast
  from two_worker_reduce_phase [OF m1] obtain m2
    where rp: "reduce_phase [worker0, worker1] (py_range 4) m1
     (fs_of [(partition_path 1 3, write_records [(''the'', IntV 1)]),
            (partition_path 0 1, write_records [(''the'', IntV 1)]),
            (''data/chunks/chunk-0.txt'', ''the''), (''data/chunks/chunk-1.txt'', ''the'')])
      = Inr (m2, fs_two_chunks_done, Some (Inr [(''the'', 1), (''the'', 1)]))"
    by blast
  from rp have rp': "reduce_phase [worker0, worker1] (py_range (num_reduce_tasks m1)) m1
     (fs_of [(partition_path 1 3, write_records [(''the'', IntV 1)]),
            (partition_path 0 1, write_records [(''the'', IntV 1)]),
            (''data/chunks/chunk-0.txt'', ''the''), (''data/chunks/chunk-1.txt'', ''the'')])
      = Inr (m2, fs_two_chunks_done, Some (Inr [(''the'', 1), (''the'', 1)]))"
    by (simp only: m1(1))
  from mp rp' have "run_job [worker0, worker1] 4
      [''data/chunks/chunk-0.txt'', ''data/chunks/chunk-1.txt''] fs_two_chunks
     = Inr (m2, fs_two_chunks_done, Done [(''the'', 1), (''the'', 1)])"
    by (rule run_job_from_phases)
  then show ?thesis
    by (rule exI [where x = m2])
qed

section \<open>One key, two reducers\<close>

text \<open>
  C3 at a job on two workers whose processes have different hash secrets. Each of the two
  chunks holds the word \<open>the\<close>, so the map steps produce the one key \<open>the\<close>. The job
  ends with the merge done, and the key stands in the output file of reducer 1 and in the
  output file of reducer 3.
\<close>

theorem key_in_two_reducer_outputs:
  "map_func worker0 ''the'' = [(''the'', IntV 1)]
   \<and> map_func worker1 ''the'' = [(''the'', IntV 1)]
   \<and> job_outcome (run_job [worker0, worker1] 4
         [''data/chunks/chunk-0.txt'', ''data/chunks/chunk-1.txt''] fs_two_chunks)
       = Inr (Done [(''the'', 1), (''the'', 1)])
   \<and> job_files (run_job [worker0, worker1] 4
         [''data/chunks/chunk-0.txt'', ''data/chunks/chunk-1.txt''] fs_two_chunks)
       = files fs_two_chunks_done
   \<and> output_entries fs_two_chunks_done 1 = Inr [(''the'', 1)]
   \<and> output_entries fs_two_chunks_done 3 = Inr [(''the'', 1)]"
proof -
  from two_worker_job obtain m
    where run: "run_job [worker0, worker1] 4
        [''data/chunks/chunk-0.txt'', ''data/chunks/chunk-1.txt''] fs_two_chunks
      = Inr (m, fs_two_chunks_done, Done [(''the'', 1), (''the'', 1)])"
    by blast
  have mf: "map_func worker0 ''the'' = [(''the'', IntV 1)]" "map_func worker1 ''the'' = [(''the'', IntV 1)]"
    by (simp_all add: worker0_def worker1_def create_worker_def wc_map_func_the)
  have e: "output_entries fs_two_chunks_done 1 = Inr [(''the'', 1)]"
    "output_entries fs_two_chunks_done 3 = Inr [(''the'', 1)]"
    by code_simp+
  show ?thesis
    unfolding run job_outcome_def job_files_def using mf e by simp
qed

text \<open>
  C5 at the same job. The final result is in order, and it has two entries, which is the
  number of distinct keys of the output files summed over the reducers and the number the
  master prints as the total of unique words; but it holds one unique key.
\<close>

theorem final_result_lists_key_twice:
  "job_outcome (run_job [worker0, worker1] 4
         [''data/chunks/chunk-0.txt'', ''data/chunks/chunk-1.txt''] fs_two_chunks)
       = Inr (Done [(''the'', 1), (''the'', 1)])
   \<and> sorted_wrt (\<lambda>a b. snd b \<le> snd a) [(''the'', 1 :: int), (''the'', 1)]
   \<and> length [(''the'', 1 :: int), (''the'', 1)] = 2
   \<and> (\<Sum>i\<leftarrow>py_range 4. card (fst ` set (entries_or_none fs_two_chunks_done i))) = 2
   \<and> card (fst ` set [(''the'', 1 :: int), (''the'', 1)]) = 1"
proof -
  from two_worker_job obtain m
    where run: "run_job [worker0, worker1] 4
        [''data/chunks/chunk-0.txt'', ''data/chunks/chunk-1.txt''] fs_two_chunks
      = Inr (m, fs_two_chunks_done, Done [(''the'', 1), (''the'', 1)])"
    by blast
  have rk: "\<forall>w \<in> set [worker0, worker1]. returns_key (reduce_func w)"
    by (simp add: worker0_def worker1_def create_worker_def returns_key_def wc_reduce_func_def)
  from final_results_sorted_and_counted [OF run rk]
  have "length [(''the'', 1 :: int), (''the'', 1)]
      = (\<Sum>i\<leftarrow>py_range 4. card (fst ` set (entries_or_none fs_two_chunks_done i)))"
    by blast
  then have "(\<Sum>i\<leftarrow>py_range 4. card (fst ` set (entries_or_none fs_two_chunks_done i))) = 2"
    by simp
  then show ?thesis
    unfolding run job_outcome_def by simp
qed


section \<open>Reducers without partition files\<close>

lemma group_files_frame:
  "\<forall>name \<in> set names. files fs' name = files fs name \<Longrightarrow>
     group_files fs' g names = group_files fs g names"
  by (induction names arbitrary: g) (auto simp: read_file_def split: option.splits sum.splits)

lemma execute_reduce_ok:
  assumes "group_files fs [] inputs = Inr grouped" and "writable fs (output_path r)"
  shows "execute_reduce w tid r inputs fs
     = (fs\<lparr>files := (files fs)(output_path r \<mapsto>
            write_records (map (\<lambda>(key, values). reduce_func w key values) grouped))\<rparr>,
        Completed, Some (tid, output_path r))"
  using assms by (simp add: execute_reduce_def write_file_def Let_def)

lemma write_records_Nil: "write_records [] = []"
  by (simp add: write_records_def)

lemma merge_results_good:
  assumes w: "writable fs final_path"
    and g: "\<forall>i \<in> set (py_range (num_reduce_tasks m)). good_output fs i"
  shows "\<exists>body final. merge_results m fs
      = Inr (fs\<lparr>files := (files fs)(final_path \<mapsto> body)\<rparr>, final)"
proof -
  have "\<not> (\<exists>i \<in> set (py_range (num_reduce_tasks m)). isl (output_entries fs i))"
  proof
    assume "\<exists>i \<in> set (py_range (num_reduce_tasks m)). isl (output_entries fs i)"
    then obtain i where i: "i \<in> set (py_range (num_reduce_tasks m))" and bad: "isl (output_entries fs i)"
      by blast
    from g i have "good_output fs i"
      by blast
    then obtain results where "output_entries fs i = Inr results"
      using good_output_entries by blast
    with bad show False
      by simp
  qed
  with merge_results_char [OF w, of m]
  have "merge_results m fs
      = Inr (fs\<lparr>files := (files fs)(final_path \<mapsto>
                final_text (sort_by_count (concat (map (entries_or_none fs) (py_range (num_reduce_tasks m))))))\<rparr>,
             sort_by_count (concat (map (entries_or_none fs) (py_range (num_reduce_tasks m)))))"
    by simp
  then show ?thesis
    by blast
qed

lemma worker_for_some: "ws \<noteq> [] \<Longrightarrow> \<exists>w. worker_for ws i = Inr w"
  by (simp add: worker_for_def)

lemma reduce_phase_reaches_merge:
  assumes "ws \<noteq> []" and "\<forall>w \<in> set ws. returns_key (reduce_func w)"
    and "py_range (num_reduce_tasks m) = prefix @ ids" and "ids \<noteq> []"
    and "completed_reduces m = int (length prefix)"
    and "\<forall>i \<in> set prefix. good_output fs i"
    and "\<forall>i \<in> set ids. writable fs (output_path i)" and "writable fs final_path"
    and "\<forall>i \<in> set ids. \<not> isl (group_files fs [] (lookup_list (intermediate_files m) i))"
    and "\<forall>i \<in> set ids. \<forall>name \<in> set (lookup_list (intermediate_files m) i). \<forall>j. name \<noteq> output_path j"
    and "\<forall>i \<in> set prefix. lookup_list (intermediate_files m) i = [] \<longrightarrow> files fs (output_path i) = Some []"
  shows "\<exists>m' fs' final. reduce_phase ws ids m fs = Inr (m', fs', Some (Inr final))
      \<and> (\<forall>i \<in> set (prefix @ ids). lookup_list (intermediate_files m) i = []
            \<longrightarrow> files fs' (output_path i) = Some [])"
  using assms
proof (induction ids arbitrary: m fs prefix)
  case Nil
  then show ?case by simp
next
  case (Cons r ids)
  let ?R = "num_reduce_tasks m"
  let ?tid = "''reduce-'' @ py_str_int r"
  let ?inputs = "lookup_list (intermediate_files m) r"
  from Cons.prems(1) obtain w where wf: "worker_for ws r = Inr w"
    using worker_for_some by blast
  then have rk: "returns_key (reduce_func w)"
    using Cons.prems(2) worker_for_mem by blast
  from Cons.prems(9) obtain grouped where g: "group_files fs [] ?inputs = Inr grouped"
    by (cases "group_files fs [] ?inputs") auto
  have wr: "writable fs (output_path r)"
    using Cons.prems(7) by simp
  define fs1 where "fs1 = fs\<lparr>files := (files fs)(output_path r \<mapsto>
      write_records (map (\<lambda>(key, values). reduce_func w key values) grouped))\<rparr>"
  have ex: "execute_reduce w ?tid r ?inputs fs = (fs1, Completed, Some (?tid, output_path r))"
    unfolding fs1_def using g wr by (rule execute_reduce_ok)
  have good_r: "good_output fs1 r"
    using ex rk by (rule execute_reduce_good)
  have other: "\<And>name. name \<noteq> output_path r \<Longrightarrow> files fs1 name = files fs name"
    by (simp add: fs1_def)
  have wsame: "writable fs1 = writable fs"
    by (simp add: fs1_def)
  have r_new: "r \<notin> set prefix"
    using py_range_distinct [of ?R] Cons.prems(3) by auto
  have other_out: "\<And>i. i \<noteq> r \<Longrightarrow> files fs1 (output_path i) = files fs (output_path i)"
    using other output_path_inj by blast
  have good1: "\<forall>i \<in> set (prefix @ [r]). good_output fs1 i"
  proof
    fix i
    assume i: "i \<in> set (prefix @ [r])"
    show "good_output fs1 i"
    proof (cases "i = r")
      case True
      with good_r show ?thesis by simp
    next
      case False
      then have "good_output fs1 i = good_output fs i"
        using other_out good_output_cong by blast
      with False i Cons.prems(6) show ?thesis by simp
    qed
  qed
  have empty_r: "?inputs = [] \<Longrightarrow> files fs1 (output_path r) = Some []"
  proof -
    assume "?inputs = []"
    with g have "grouped = []"
      by simp
    then show ?thesis
      by (simp add: fs1_def write_records_Nil)
  qed
  have empty1: "\<forall>i \<in> set (prefix @ [r]). lookup_list (intermediate_files m) i = []
      \<longrightarrow> files fs1 (output_path i) = Some []"
  proof (intro ballI impI)
    fix i
    assume i: "i \<in> set (prefix @ [r])" and e: "lookup_list (intermediate_files m) i = []"
    show "files fs1 (output_path i) = Some []"
    proof (cases "i = r")
      case True
      with e empty_r show ?thesis by simp
    next
      case False
      with i e Cons.prems(11) other_out show ?thesis by simp
    qed
  qed
  have len: "int (length prefix) + 1 + int (length ids) = ?R"
  proof -
    have "length (py_range ?R) = length prefix + 1 + length ids"
      using Cons.prems(3) by simp
    then have "nat ?R = length prefix + 1 + length ids"
      by (simp add: py_range_length)
    then show ?thesis by linarith
  qed
  define m1 where "m1 = m\<lparr>intermediate_files := extend_item r [] (intermediate_files m),
      completed_reduces := completed_reduces m + 1\<rparr>"
  have m1: "num_reduce_tasks m1 = ?R" "completed_reduces m1 = int (length (prefix @ [r]))"
    "\<And>k. lookup_list (intermediate_files m1) k = lookup_list (intermediate_files m) k"
    using Cons.prems(5) by (simp_all add: m1_def lookup_extend_empty)
  show ?case
  proof (cases "ids = []")
    case True
    with len Cons.prems(5) have full: "completed_reduces m + 1 = ?R"
      by simp
    have "\<forall>i \<in> set (py_range (num_reduce_tasks m1)). good_output fs1 i"
      using good1 Cons.prems(3) True m1(1) by simp
    moreover have "writable fs1 final_path"
      using Cons.prems(8) wsame by simp
    ultimately obtain body final
      where mg: "merge_results m1 fs1 = Inr (fs1\<lparr>files := (files fs1)(final_path \<mapsto> body)\<rparr>, final)"
      using merge_results_good by blast
    define fs2 where "fs2 = fs1\<lparr>files := (files fs1)(final_path \<mapsto> body)\<rparr>"
    have "\<exists>m2. reduce_phase ws [r] m fs = Inr (m2, fs2, Some (Inr final))"
      using wf ex full mg [unfolded m1_def, folded fs2_def] by (rule reduce_phase_last)
    moreover have "\<And>i. files fs2 (output_path i) = files fs1 (output_path i)"
      using final_path_not_output [symmetric] by (simp add: fs2_def)
    ultimately show ?thesis
      using True empty1 by auto
  next
    case False
    with len Cons.prems(5) have notfull: "completed_reduces m + 1 \<noteq> ?R"
      by (cases ids) auto
    have step: "reduce_phase ws (r # ids) m fs = reduce_phase ws ids m1 fs1"
      unfolding m1_def using wf ex notfull by (rule reduce_phase_step)
    have p3: "py_range (num_reduce_tasks m1) = (prefix @ [r]) @ ids"
      using Cons.prems(3) m1(1) by simp
    have p7: "\<forall>i \<in> set ids. writable fs1 (output_path i)"
      using Cons.prems(7) wsame by simp
    have p8: "writable fs1 final_path"
      using Cons.prems(8) wsame by simp
    have p10: "\<forall>i \<in> set ids. \<forall>name \<in> set (lookup_list (intermediate_files m1) i).
        \<forall>j. name \<noteq> output_path j"
      using Cons.prems(10) by (simp add: m1(3))
    have p9: "\<forall>i \<in> set ids. \<not> isl (group_files fs1 [] (lookup_list (intermediate_files m1) i))"
    proof
      fix i
      assume i: "i \<in> set ids"
      have "\<forall>name \<in> set (lookup_list (intermediate_files m) i). files fs1 name = files fs name"
        using Cons.prems(10) i other by auto
      then have "group_files fs1 [] (lookup_list (intermediate_files m) i)
          = group_files fs [] (lookup_list (intermediate_files m) i)"
        by (rule group_files_frame)
      with Cons.prems(9) i show "\<not> isl (group_files fs1 [] (lookup_list (intermediate_files m1) i))"
        by (simp add: m1(3))
    qed
    have p11: "\<forall>i \<in> set (prefix @ [r]). lookup_list (intermediate_files m1) i = []
        \<longrightarrow> files fs1 (output_path i) = Some []"
      using empty1 by (simp add: m1(3))
    from Cons.IH [OF Cons.prems(1,2) p3 False m1(2) good1 p7 p8 p9 p10 p11] step show ?thesis
      by (simp add: m1(3))
  qed
qed

text \<open>
  C7. A reduce task handed an empty list of partition files reads nothing, writes its
  reducer's output file with no record in it, answers completed and posts its report.
  In a run of the reduce phase (tasks in dispatch order, one handler at a time) in which
  the output files and the final file can be written, the reduce functions return the
  key they were given, the partition files named in the manifest can be read and parsed,
  and none of them is a reducer's output file, the last report runs the merge, the merge
  succeeds, and the output file of every reducer whose list was empty is there and empty;
  a job whose map phase led to this state ends in the DONE state.
\<close>

theorem empty_reduce_task_completes:
  assumes "ws \<noteq> []" and "\<forall>w \<in> set ws. returns_key (reduce_func w)"
    and "0 < num_reduce_tasks m" and "completed_reduces m = 0"
    and "\<forall>i \<in> set (py_range (num_reduce_tasks m)). writable fs (output_path i)"
    and "writable fs final_path"
    and "\<forall>i \<in> set (py_range (num_reduce_tasks m)).
           \<not> isl (group_files fs [] (lookup_list (intermediate_files m) i))"
    and "\<forall>i \<in> set (py_range (num_reduce_tasks m)).
           \<forall>name \<in> set (lookup_list (intermediate_files m) i). \<forall>j. name \<noteq> output_path j"
    and "r \<in> set (py_range (num_reduce_tasks m))"
    and "lookup_list (intermediate_files m) r = []"
  shows "(\<forall>w tid fs1. writable fs1 (output_path r) \<longrightarrow>
            execute_reduce w tid r (lookup_list (intermediate_files m) r) fs1
              = (fs1\<lparr>files := (files fs1)(output_path r \<mapsto> [])\<rparr>, Completed, Some (tid, output_path r)))
       \<and> (\<exists>m' fs' final.
            reduce_phase ws (py_range (num_reduce_tasks m)) m fs = Inr (m', fs', Some (Inr final))
            \<and> files fs' (output_path r) = Some []
            \<and> (\<forall>R input_files fs0.
                  map_phase ws (enumerate_files input_files)
                      ((register_all ws (init_master R))\<lparr>map_tasks := input_files\<rparr>) fs0
                    = Inr (m, fs, True)
                  \<longrightarrow> run_job ws R input_files fs0 = Inr (m', fs', Done final)))"
proof -
  have task: "\<forall>w tid fs1. writable fs1 (output_path r) \<longrightarrow>
      execute_reduce w tid r (lookup_list (intermediate_files m) r) fs1
        = (fs1\<lparr>files := (files fs1)(output_path r \<mapsto> [])\<rparr>, Completed, Some (tid, output_path r))"
    using assms(10) by (simp add: execute_reduce_def write_file_def write_records_Nil Let_def)
  have ne: "py_range (num_reduce_tasks m) \<noteq> []"
    using assms(3) py_range_length [of "num_reduce_tasks m"] by auto
  have "\<exists>m' fs' final.
      reduce_phase ws (py_range (num_reduce_tasks m)) m fs = Inr (m', fs', Some (Inr final))
      \<and> (\<forall>i \<in> set ([] @ py_range (num_reduce_tasks m)). lookup_list (intermediate_files m) i = []
            \<longrightarrow> files fs' (output_path i) = Some [])"
    using assms(1,2) _ ne _ _ assms(5,6,7,8)
    by (rule reduce_phase_reaches_merge) (simp_all add: assms(4))
  then obtain m' fs' final
    where rp: "reduce_phase ws (py_range (num_reduce_tasks m)) m fs = Inr (m', fs', Some (Inr final))"
      and empty: "files fs' (output_path r) = Some []"
    using assms(9,10) by auto
  have "\<forall>R input_files fs0.
      map_phase ws (enumerate_files input_files)
          ((register_all ws (init_master R))\<lparr>map_tasks := input_files\<rparr>) fs0
        = Inr (m, fs, True)
      \<longrightarrow> run_job ws R input_files fs0 = Inr (m', fs', Done final)"
    using rp run_job_from_phases by blast
  with task rp empty show ?thesis
    by blast
qed

lemma partition_not_output: "partition_path n k \<noteq> output_path j"
  by (simp add: partition_path_def output_path_def)

lemma group_partition_0_1:
  "group_files (fs_of [(partition_path 1 3, write_records [(''the'', IntV 1)]),
            (partition_path 0 1, write_records [(''the'', IntV 1)]),
            (''data/chunks/chunk-0.txt'', ''the''), (''data/chunks/chunk-1.txt'', ''the'')])
          [] [partition_path 0 1] = Inr [(''the'', [1])]"
  by code_simp

lemma group_partition_1_3:
  "group_files (fs_of [(partition_path 1 3, write_records [(''the'', IntV 1)]),
            (partition_path 0 1, write_records [(''the'', IntV 1)]),
            (''data/chunks/chunk-0.txt'', ''the''), (''data/chunks/chunk-1.txt'', ''the'')])
          [] [partition_path 1 3] = Inr [(''the'', [1])]"
  by code_simp

theorem empty_reduce_task_completes_witness:
  "(\<exists>final. job_outcome (run_job [worker0, worker1] 4
         [''data/chunks/chunk-0.txt'', ''data/chunks/chunk-1.txt''] fs_two_chunks) = Inr (Done final))
   \<and> job_files (run_job [worker0, worker1] 4
         [''data/chunks/chunk-0.txt'', ''data/chunks/chunk-1.txt''] fs_two_chunks) (output_path 0) = Some []
   \<and> execute_reduce worker0 ''reduce-0'' 0 [] fs_two_chunks
       = (fs_two_chunks\<lparr>files := (files fs_two_chunks)(output_path 0 \<mapsto> [])\<rparr>,
          Completed, Some (''reduce-0'', output_path 0))"
proof -
  let ?ws = "[worker0, worker1]"
  let ?inputs = "[''data/chunks/chunk-0.txt'', ''data/chunks/chunk-1.txt'']"
  define fsB where "fsB = fs_of [(partition_path 1 3, write_records [(''the'', IntV 1)]),
            (partition_path 0 1, write_records [(''the'', IntV 1)]),
            (''data/chunks/chunk-0.txt'', ''the''), (''data/chunks/chunk-1.txt'', ''the'')]"
  from two_worker_map_phase obtain m1
    where mp: "map_phase ?ws (enumerate_files ?inputs)
        ((register_all ?ws (init_master 4))\<lparr>map_tasks := ?inputs\<rparr>) fs_two_chunks
      = Inr (m1, fsB, True)"
      and m1: "num_reduce_tasks m1 = 4" "completed_reduces m1 = 0"
        "intermediate_files m1 = [(1, [partition_path 0 1]), (3, [partition_path 1 3])]"
    unfolding fsB_def by blast
  have h1: "?ws \<noteq> []"
    by simp
  have h2: "\<forall>w \<in> set ?ws. returns_key (reduce_func w)"
    by (simp add: worker0_def worker1_def create_worker_def returns_key_def wc_reduce_func_def)
  have h3: "0 < num_reduce_tasks m1"
    by (simp add: m1)
  have h5: "\<forall>i \<in> set (py_range (num_reduce_tasks m1)). writable fsB (output_path i)"
    by (simp add: fsB_def fs_of_def)
  have h6: "writable fsB final_path"
    by (simp add: fsB_def fs_of_def)
  have h7: "\<forall>i \<in> set (py_range (num_reduce_tasks m1)).
      \<not> isl (group_files fsB [] (lookup_list (intermediate_files m1) i))"
    using group_partition_0_1 group_partition_1_3
    by (simp add: m1 py_range_4 fsB_def)
  have h8: "\<forall>i \<in> set (py_range (num_reduce_tasks m1)).
      \<forall>name \<in> set (lookup_list (intermediate_files m1) i). \<forall>j. name \<noteq> output_path j"
    by (simp add: m1 py_range_4 partition_not_output)
  have h9: "0 \<in> set (py_range (num_reduce_tasks m1))"
    by (simp add: m1 py_range_4)
  have h10: "lookup_list (intermediate_files m1) 0 = []"
    by (simp add: m1)
  have fw: "writable fs_two_chunks (output_path 0)"
    by (simp add: fs_two_chunks_def fs_of_def)
  from empty_reduce_task_completes [OF h1 h2 h3 m1(2) h5 h6 h7 h8 h9 h10]
  obtain m' fs' final
    where task: "\<forall>w tid fs1. writable fs1 (output_path 0) \<longrightarrow>
        execute_reduce w tid 0 (lookup_list (intermediate_files m1) 0) fs1
          = (fs1\<lparr>files := (files fs1)(output_path 0 \<mapsto> [])\<rparr>, Completed, Some (tid, output_path 0))"
      and empty: "files fs' (output_path 0) = Some []"
      and job: "\<forall>R input_files fs0.
          map_phase ?ws (enumerate_files input_files)
              ((register_all ?ws (init_master R))\<lparr>map_tasks := input_files\<rparr>) fs0
            = Inr (m1, fsB, True)
          \<longrightarrow> run_job ?ws R input_files fs0 = Inr (m', fs', Done final)"
    by blast
  from job mp have run: "run_job ?ws 4 ?inputs fs_two_chunks = Inr (m', fs', Done final)"
    by blast
  from task fw have t0: "execute_reduce worker0 ''reduce-0'' 0 [] fs_two_chunks
       = (fs_two_chunks\<lparr>files := (files fs_two_chunks)(output_path 0 \<mapsto> [])\<rparr>,
          Completed, Some (''reduce-0'', output_path 0))"
    unfolding h10 by blast
  have "job_outcome (run_job ?ws 4 ?inputs fs_two_chunks) = Inr (Done final)"
    unfolding run job_outcome_def by simp
  moreover have "job_files (run_job ?ws 4 ?inputs fs_two_chunks) (output_path 0) = Some []"
    unfolding run job_files_def using empty by simp
  ultimately show ?thesis
    using t0 by blast
qed

end
